theory Spec2Isabelle
  imports Main "HOL-Library.AList" "HOL-Library.Char_ord" "HOL-Library.List_Lexorder"
begin

section \<open>The content index of bot-tele-site.py\<close>

text \<open>
  The development embeds the persistence core of \<^verbatim>\<open>bot-tele-site.py\<close>: the marker files,
  the per-day JSON files, the month and year manifests, the paginated global index and the
  orchestration in \<^verbatim>\<open>run\<close>.

  Modelling decisions, all of them visible in the definitions below:
  \<^item> A Python \<^verbatim>\<open>str\<close> is a \<^typ>\<open>string\<close>; one \<^typ>\<open>char\<close> stands for one code point
    below 256, and comparison of strings is lexicographic by code point, as in Python.
  \<^item> A \<^verbatim>\<open>pathlib.Path\<close> is the list of its components; \<^verbatim>\<open>str(p)\<close> joins them with a slash.
  \<^item> The directory trees \<^verbatim>\<open>data/\<close> and \<^verbatim>\<open>global_index/\<close> are one association list from paths
    to file contents. A directory exists when a file lies below it. Writing a file always
    succeeds, so the \<^verbatim>\<open>except\<close> branches of the writers are not reachable in the model.
  \<^item> The contents of a JSON file are typed: a file is unparseable, or holds a list of
    objects, a manifest, a pagination descriptor or a stats snapshot. An object in a list is
    a daily record or a slim record.
  \<^item> The feed parser, the image pipeline, the Telegram client and the upload are outside the
    program. A run receives their results in an environment record: the feed entries, the
    clock readings, and whether each Telegram call returns or raises.
\<close>

subsection \<open>Text helpers\<close>

text \<open>\<^verbatim>\<open>str.isspace\<close> on the code points below 256.\<close>

definition is_space :: "char \<Rightarrow> bool" where
  "is_space c = (let n = (of_char c :: nat)
                 in (9 \<le> n \<and> n \<le> 13) \<or> (28 \<le> n \<and> n \<le> 32) \<or> n = 133 \<or> n = 160)"

text \<open>\<^verbatim>\<open>s.strip()\<close>\<close>

definition strip :: "string \<Rightarrow> string" where
  "strip s = rev (dropWhile is_space (rev (dropWhile is_space s)))"

definition digit_char :: "nat \<Rightarrow> char" where
  "digit_char d = ''0123456789'' ! d"

text \<open>\<^verbatim>\<open>f"{n}"\<close> for a non-negative integer.\<close>

fun str_nat :: "nat \<Rightarrow> string" where
  "str_nat n = (if n < 10 then [digit_char n] else str_nat (n div 10) @ [digit_char (n mod 10)])"

declare str_nat.simps [simp del]

text \<open>\<^verbatim>\<open>f"{n:02d}"\<close> for a non-negative integer.\<close>

definition pad2 :: "nat \<Rightarrow> string" where
  "pad2 n = (let s = str_nat n in if length s < 2 then CHR ''0'' # s else s)"

definition ends_with :: "string \<Rightarrow> string \<Rightarrow> bool" where
  "ends_with s suf = (length suf \<le> length s \<and> drop (length s - length suf) s = suf)"

subsection \<open>Paths and files\<close>

type_synonym path = "string list"

text \<open>\<^verbatim>\<open>str(p)\<close> and \<^verbatim>\<open>p.as_posix()\<close> of a relative path.\<close>

fun as_posix :: "path \<Rightarrow> string" where
  "as_posix [] = ''.''"
| "as_posix [c] = c"
| "as_posix (c # cs) = c @ ''/'' @ as_posix cs"

text \<open>
  \<^verbatim>\<open>p.stem\<close>: the name without its last suffix; a dot at the start or at the end of the name
  does not begin a suffix.
\<close>

definition stem :: "string \<Rightarrow> string" where
  "stem name =
     (if CHR ''.'' \<in> set name
      then (let i = length name - Suc (length (takeWhile (\<lambda>c. c \<noteq> CHR ''.'') (rev name)))
            in if 0 < i \<and> i < length name - 1 then take i name else name)
      else name)"

record datetime =
  year :: nat
  month :: nat
  day :: nat

record daily_record =
  title :: string
  description_full :: string
  image_url :: "string option"
  categories :: "string list"

record slim_record =
  slim_title :: string
  slim_image :: "string option"
  slim_categories :: "string list"
  slim_path :: "string option"

datatype item = Daily daily_record | Slim slim_record

record month_manifest =
  mm_year :: string
  mm_month :: string
  days :: "(string \<times> string) list"

record year_manifest =
  ym_year :: string
  months :: "(string \<times> string) list"

record pagination =
  total_articles :: "int option"
  files :: "string list"

record stats =
  stats_total_articles :: int
  added_today :: nat
  last_update :: string

datatype jfile =
    Unparseable
  | JList "item list"
  | JMonthManifest month_manifest
  | JYearManifest year_manifest
  | JPagination pagination
  | JStats stats

type_synonym fs = "(path \<times> jfile) list"

datatype error = TelegramError | KeyError

definition DATA_BASE :: path where
  "DATA_BASE = [''data'']"

definition GLOBAL_INDEX :: path where
  "GLOBAL_INDEX = [''global_index'']"

definition GLOBAL_PAGE_SIZE :: nat where
  "GLOBAL_PAGE_SIZE = 500"

text \<open>The names directly below a directory: files and sub-directories, each once.\<close>

definition children :: "path \<Rightarrow> fs \<Rightarrow> string list" where
  "children dir t =
     remdups (map (\<lambda>p. p ! length dir)
                  (filter (\<lambda>p. length dir < length p \<and> take (length dir) p = dir) (map fst t)))"

definition daily_path :: "datetime \<Rightarrow> path" where
  "daily_path dt =
     DATA_BASE @ [str_nat (year dt), pad2 (month dt), pad2 (day dt) @ ''-'' @ pad2 (month dt) @ ''.json'']"

definition load_json_list :: "path \<Rightarrow> fs \<Rightarrow> item list" where
  "load_json_list p t =
     (case map_of t p of
        None \<Rightarrow> []
      | Some (JList xs) \<Rightarrow> xs
      | Some _ \<Rightarrow> [])"

definition save_json_list :: "path \<Rightarrow> item list \<Rightarrow> fs \<Rightarrow> fs" where
  "save_json_list p xs t = AList.update p (JList xs) t"

text \<open>
  The marker files hold plain text; \<open>None\<close> is a missing file. \<^verbatim>\<open>Path.read_text\<close> opens
  the file in text mode, which turns a carriage return, alone or followed by a line feed,
  into one line feed.
\<close>

fun universal_newlines :: "string \<Rightarrow> string" where
  "universal_newlines [] = []"
| "universal_newlines [c] = (if c = CHR 0x0D then [CHR 0x0A] else [c])"
| "universal_newlines (c # d # cs) =
     (if c = CHR 0x0D
      then (if d = CHR 0x0A then CHR 0x0A # universal_newlines cs
            else CHR 0x0A # universal_newlines (d # cs))
      else c # universal_newlines (d # cs))"

text \<open>
  \<^verbatim>\<open>read_text_file\<close> returns the text as read, stripped, or \<open>None\<close> when nothing is left.
  \<^verbatim>\<open>write_text_file\<close> stores the stripped value and a line feed; on a POSIX system the line
  feed is written as it is.
\<close>

definition read_text_file :: "string option \<Rightarrow> string option" where
  "read_text_file f =
     (case f of
        None \<Rightarrow> None
      | Some raw \<Rightarrow> (let s = strip (universal_newlines raw) in if s = [] then None else Some s))"

definition write_text_file :: "string \<Rightarrow> string option" where
  "write_text_file v = Some (strip v @ [CHR 0x0A])"

subsection \<open>Feed entries\<close>

text \<open>
  An entry of the news feed, seen through the accessors the program uses:
  \<^verbatim>\<open>getattr(entry, "title", "") or ""\<close>, \<^verbatim>\<open>extract_full_text\<close>, \<^verbatim>\<open>extract_image\<close> and
  \<^verbatim>\<open>extract_categories\<close>.
\<close>

record entry =
  entry_title :: string
  entry_full_text :: string
  entry_image :: "string option"
  entry_categories :: "string list"

text \<open>An entry of the video feed: the video id (empty when missing), and the thumbnail.\<close>

record yt_entry =
  yt_vid :: string
  yt_thumb :: "string option"

text \<open>\<^verbatim>\<open>x or ""\<close> for an optional string.\<close>

definition or_empty :: "string option \<Rightarrow> string" where
  "or_empty x = (case x of None \<Rightarrow> [] | Some s \<Rightarrow> s)"

definition build_daily_record :: "entry \<Rightarrow> daily_record" where
  "build_daily_record e =
     \<lparr>title = entry_title e, description_full = entry_full_text e,
      image_url = entry_image e, categories = entry_categories e\<rparr>"

definition get_entry_identity :: "entry \<Rightarrow> string" where
  "get_entry_identity e = strip (entry_title e) @ ''|'' @ strip (or_empty (entry_image e))"

subsection \<open>Daily record store\<close>

text \<open>\<^verbatim>\<open>x.get('title')\<close> and \<^verbatim>\<open>x.get('image')\<close> on an object of a list.\<close>

fun item_title :: "item \<Rightarrow> string option" where
  "item_title (Daily r) = Some (title r)"
| "item_title (Slim r) = Some (slim_title r)"

fun item_image :: "item \<Rightarrow> string option" where
  "item_image (Daily r) = image_url r"
| "item_image (Slim r) = slim_image r"

text \<open>The fingerprint \<^verbatim>\<open>save_single_news\<close> computes for a stored object.\<close>

definition item_identity :: "item \<Rightarrow> string" where
  "item_identity x = strip (or_empty (item_title x)) @ ''|'' @ strip (or_empty (item_image x))"

definition save_single_news :: "datetime \<Rightarrow> entry \<Rightarrow> fs \<Rightarrow> (daily_record option \<times> string) \<times> fs" where
  "save_single_news today e t =
     (let p = daily_path today;
          existing = load_json_list p t;
          fp = get_entry_identity e;
          existing_fp = map item_identity existing
      in if fp \<in> set existing_fp then ((None, as_posix p), t)
         else (let rec = build_daily_record e
               in ((Some rec, as_posix p), save_json_list p (existing @ [Daily rec]) t)))"

subsection \<open>Manifests\<close>

text \<open>\<^verbatim>\<open>s.split("-")[0]\<close>\<close>

definition split_first :: "string \<Rightarrow> string" where
  "split_first s = takeWhile (\<lambda>c. c \<noteq> CHR ''-'') s"

text \<open>\<^verbatim>\<open>dict(sorted(d.items(), key=lambda kv: kv[0], reverse=True))\<close>: a stable sort, reversed.\<close>

definition sorted_desc :: "(string \<times> string) list \<Rightarrow> (string \<times> string) list" where
  "sorted_desc d = rev (sort_key fst (rev d))"

text \<open>
  The loop of \<^verbatim>\<open>update_month_manifest\<close> over the sorted names found by the glob. A later
  name with the same key replaces the value and keeps the place of the key, as assignment to a
  Python dictionary does.
\<close>

fun month_days :: "path \<Rightarrow> string list \<Rightarrow> (string \<times> string) list \<Rightarrow> (string \<times> string) list" where
  "month_days month_dir [] d = d"
| "month_days month_dir (n # ns) d =
     (if n = ''month_manifest.json'' then month_days month_dir ns d
      else month_days month_dir ns
             (AList.update (split_first (stem n)) (as_posix (month_dir @ [n])) d))"

text \<open>
  \<^verbatim>\<open>update_month_manifest\<close>. The glob \<^verbatim>\<open>*.json\<close> finds the names directly below the
  directory that end in \<^verbatim>\<open>.json\<close>, and \<^verbatim>\<open>sorted\<close> orders the paths of one directory by
  name.
\<close>

definition update_month_manifest :: "datetime \<Rightarrow> fs \<Rightarrow> fs" where
  "update_month_manifest dt t =
     (let month_dir = DATA_BASE @ [str_nat (year dt), pad2 (month dt)];
          manifest_path = month_dir @ [''month_manifest.json''];
          found = sort (filter (\<lambda>n. ends_with n ''.json'') (children month_dir t));
          d = month_days month_dir found [];
          manifest = \<lparr>mm_year = str_nat (year dt), mm_month = pad2 (month dt), days = sorted_desc d\<rparr>
      in AList.update manifest_path (JMonthManifest manifest) t)"

text \<open>The glob pattern \<^verbatim>\<open>[0-1][0-9]\<close>.\<close>

definition is_month_name :: "string \<Rightarrow> bool" where
  "is_month_name n =
     (length n = 2 \<and> n ! 0 \<in> set ''01'' \<and> n ! 1 \<in> set ''0123456789'')"

fun year_months :: "path \<Rightarrow> string list \<Rightarrow> (string \<times> string) list \<Rightarrow> (string \<times> string) list" where
  "year_months year_dir [] d = d"
| "year_months year_dir (m # ms) d =
     year_months year_dir ms
       (AList.update m (as_posix (year_dir @ [m, ''month_manifest.json''])) d)"

definition update_year_manifest :: "datetime \<Rightarrow> fs \<Rightarrow> fs" where
  "update_year_manifest dt t =
     (let year_dir = DATA_BASE @ [str_nat (year dt)];
          manifest_path = year_dir @ [''year_manifest.json''];
          found = sort (filter is_month_name (children year_dir t));
          d = year_months year_dir found [];
          manifest = \<lparr>ym_year = str_nat (year dt), months = sorted_desc d\<rparr>
      in AList.update manifest_path (JYearManifest manifest) t)"

subsection \<open>Global paginated index\<close>

definition pag_path :: path where
  "pag_path = GLOBAL_INDEX @ [''pagination.json'']"

definition stats_path :: path where
  "stats_path = GLOBAL_INDEX @ [''stats.json'']"

text \<open>\<^verbatim>\<open>f"index_{n}.json"\<close>\<close>

definition index_name :: "nat \<Rightarrow> string" where
  "index_name n = ''index_'' @ str_nat n @ ''.json''"

definition default_pagination :: pagination where
  "default_pagination = \<lparr>total_articles = Some 0, files = []\<rparr>"

text \<open>
  \<^verbatim>\<open>gi_load_pagination\<close> returns whatever JSON value the file holds; a missing or
  unparseable file gives the default descriptor.
\<close>

definition gi_load_pagination :: "fs \<Rightarrow> jfile" where
  "gi_load_pagination t =
     (case map_of t pag_path of
        None \<Rightarrow> JPagination default_pagination
      | Some Unparseable \<Rightarrow> JPagination default_pagination
      | Some j \<Rightarrow> j)"

definition gi_save_pagination :: "pagination \<Rightarrow> fs \<Rightarrow> fs" where
  "gi_save_pagination pag t = AList.update pag_path (JPagination pag) t"

definition gi_save_stats :: "int \<Rightarrow> nat \<Rightarrow> string \<Rightarrow> fs \<Rightarrow> fs" where
  "gi_save_stats total_n added now t =
     AList.update stats_path
       (JStats \<lparr>stats_total_articles = total_n, added_today = added, last_update = now\<rparr>) t"

text \<open>\<^verbatim>\<open>x or 0\<close> for an optional integer.\<close>

definition or_zero :: "int option \<Rightarrow> int" where
  "or_zero x = (case x of None \<Rightarrow> 0 | Some n \<Rightarrow> n)"

text \<open>The truth value Python gives an optional string.\<close>

definition truthy :: "string option \<Rightarrow> bool" where
  "truthy x = (case x of None \<Rightarrow> False | Some s \<Rightarrow> s \<noteq> [])"

definition convert_full_to_slim :: "daily_record list \<Rightarrow> string option \<Rightarrow> slim_record list" where
  "convert_full_to_slim records source_path =
     map (\<lambda>(i, r).
            \<lparr>slim_title = title r, slim_image = image_url r, slim_categories = categories r,
             slim_path = (if truthy source_path
                          then Some (or_empty source_path @ ''#'' @ str_nat i) else None)\<rparr>)
         (enumerate 0 records)"

text \<open>
  \<^verbatim>\<open>gi_append_records\<close>. The argument \<open>now\<close> is the time stamp \<^verbatim>\<open>gi_save_stats\<close> reads
  from the clock. \<^verbatim>\<open>pag["files"]\<close> raises when \<^verbatim>\<open>pagination.json\<close> holds JSON of another
  shape; nothing has been written by then. A registered file name is one path component.
\<close>

definition gi_append_records :: "string \<Rightarrow> item list \<Rightarrow> fs \<Rightarrow> error + fs" where
  "gi_append_records now new_records t =
     (if new_records = [] then Inr t
      else
        (case gi_load_pagination t of
           JPagination pag \<Rightarrow>
             (let (t1, files1) =
                    (if files pag = []
                     then (save_json_list (GLOBAL_INDEX @ [''index_1.json'']) [] t,
                           files pag @ [''index_1.json''])
                     else (t, files pag));
                  current_filename = last files1;
                  current_file = GLOBAL_INDEX @ [current_filename];
                  items = load_json_list current_file t1;
                  (t2, files2, current_file2, items2) =
                    (if GLOBAL_PAGE_SIZE \<le> length items
                     then (let next_idx = length files1 + 1;
                               fresh = index_name next_idx
                           in (save_json_list (GLOBAL_INDEX @ [fresh]) [] t1,
                               files1 @ [fresh], GLOBAL_INDEX @ [fresh], []))
                     else (t1, files1, current_file, items));
                  items3 = items2 @ new_records;
                  t3 = save_json_list current_file2 items3 t2;
                  total_n = or_zero (total_articles pag) + int (length new_records);
                  t4 = gi_save_pagination \<lparr>total_articles = Some total_n, files = files2\<rparr> t3
              in Inr (gi_save_stats total_n (length new_records) now t4))
         | _ \<Rightarrow> Inl KeyError))"

subsection \<open>Senders and the run\<close>

text \<open>
  What a run receives from outside: whether the Telegram settings are present, the entries
  of the two feeds, the three readings of the clock (in \<^verbatim>\<open>save_single_news\<close>, before the
  manifests, in \<^verbatim>\<open>gi_save_stats\<close>), and whether each call of the Telegram client returns
  (\<open>True\<close>) or raises (\<open>False\<close>).
\<close>

record env =
  telegram_configured :: bool
  news_entries :: "entry list"
  youtube_entries :: "yt_entry list"
  save_clock :: datetime
  manifest_clock :: datetime
  stats_clock :: string
  news_photo_ok :: bool
  news_message_ok :: bool
  yt_photo_ok :: bool
  yt_message_ok :: bool

text \<open>The two marker files and the tree of JSON files.\<close>

record state =
  crunchyroll_last_fp_file :: "string option"
  youtube_last_id_file :: "string option"
  tree :: fs

datatype outcome = Returned state | Raised error state

text \<open>
  \<^verbatim>\<open>send_crunchyroll_one\<close>: \<open>None\<close> when it returns, the exception when it raises. A failed
  photo is caught and followed by the text message; the text message is not guarded.
\<close>

definition send_crunchyroll_one :: "env \<Rightarrow> entry \<Rightarrow> error option" where
  "send_crunchyroll_one ev e =
     (let rec = build_daily_record e;
          img_url = image_url rec
      in if truthy img_url \<and> news_photo_ok ev then None
         else if news_message_ok ev then None
         else Some TelegramError)"

text \<open>
  \<^verbatim>\<open>send_youtube_latest_if_new\<close>: both sends are inside the \<^verbatim>\<open>try\<close>, and a failure returns
  before the marker is written.
\<close>

definition send_youtube_latest_if_new :: "env \<Rightarrow> state \<Rightarrow> state" where
  "send_youtube_latest_if_new ev s =
     (case youtube_entries ev of
        [] \<Rightarrow> s
      | e # _ \<Rightarrow>
          (let vid = yt_vid e;
               last_vid = read_text_file (youtube_last_id_file s)
           in if truthy last_vid \<and> vid \<noteq> [] \<and> Some vid = last_vid then s
              else (let sent = (if truthy (yt_thumb e) then yt_photo_ok ev else yt_message_ok ev)
                    in if sent then s\<lparr>youtube_last_id_file := write_text_file vid\<rparr> else s)))"

text \<open>
  The news part of \<^verbatim>\<open>run\<close>. Image processing and the upload change no file and are
  taken as calls that return, so they leave no trace here.
\<close>

definition run_news :: "env \<Rightarrow> state \<Rightarrow> outcome" where
  "run_news ev s =
     (case news_entries ev of
        [] \<Rightarrow> Returned s
      | latest # _ \<Rightarrow>
          (let fp = get_entry_identity latest;
               last_fp = read_text_file (crunchyroll_last_fp_file s)
           in if truthy last_fp \<and> Some fp = last_fp then Returned s
              else
                (let ((rec, day_path), t1) = save_single_news (save_clock ev) latest (tree s)
                 in case rec of
                      Some r \<Rightarrow>
                        (case send_crunchyroll_one ev latest of
                           Some err \<Rightarrow> Raised err (s\<lparr>tree := t1\<rparr>)
                         | None \<Rightarrow>
                             (let today = manifest_clock ev;
                                  t2 = update_month_manifest today t1;
                                  t3 = update_year_manifest today t2;
                                  slim = convert_full_to_slim [r] (Some day_path)
                              in case gi_append_records (stats_clock ev) (map Slim slim) t3 of
                                   Inl err \<Rightarrow> Raised err (s\<lparr>tree := t3\<rparr>)
                                 | Inr t4 \<Rightarrow>
                                     Returned (s\<lparr>tree := t4,
                                                 crunchyroll_last_fp_file := write_text_file fp\<rparr>)))
                    | None \<Rightarrow>
                        Returned (s\<lparr>tree := t1, crunchyroll_last_fp_file := write_text_file fp\<rparr>))))"

definition run :: "env \<Rightarrow> state \<Rightarrow> outcome" where
  "run ev s =
     (if \<not> telegram_configured ev then Returned s
      else (case run_news ev s of
              Raised err s1 \<Rightarrow> Raised err s1
            | Returned s1 \<Rightarrow> Returned (send_youtube_latest_if_new ev s1)))"

subsection \<open>Helpers for stating the index properties\<close>

text \<open>\<^verbatim>\<open>GLOBAL_INDEX / name\<close>\<close>

definition page :: "string \<Rightarrow> path" where
  "page n = GLOBAL_INDEX @ [n]"

text \<open>The file list names its pages \<^verbatim>\<open>index_1.json\<close>, \<^verbatim>\<open>index_2.json\<close>, ... in this order.\<close>

definition seq_numbered :: "string list \<Rightarrow> bool" where
  "seq_numbered fl = (fl = map index_name [1..<Suc (length fl)])"

text \<open>A sequence of calls of \<^verbatim>\<open>gi_append_records\<close>, one object and one clock reading each.\<close>

fun gi_append_each :: "(string \<times> item) list \<Rightarrow> fs \<Rightarrow> error + fs" where
  "gi_append_each [] t = Inr t"
| "gi_append_each ((now, r) # cs) t =
     (case gi_append_records now [r] t of
        Inl err \<Rightarrow> Inl err
      | Inr t' \<Rightarrow> gi_append_each cs t')"

subsection \<open>Helpers for stating the manifest properties\<close>

text \<open>The directory of a month, the JSON names in it other than the manifest, and the
  \<^verbatim>\<open>days\<close> of the manifest stored in it.\<close>

definition month_dir :: "datetime \<Rightarrow> path" where
  "month_dir dt = DATA_BASE @ [str_nat (year dt), pad2 (month dt)]"

definition daily_names :: "datetime \<Rightarrow> fs \<Rightarrow> string list" where
  "daily_names dt t =
     filter (\<lambda>n. n \<noteq> ''month_manifest.json'')
       (filter (\<lambda>n. ends_with n ''.json'') (children (month_dir dt) t))"

definition manifest_days :: "datetime \<Rightarrow> fs \<Rightarrow> (string \<times> string) list" where
  "manifest_days dt t =
     (case map_of t (month_dir dt @ [''month_manifest.json'']) of
        Some (JMonthManifest m) \<Rightarrow> days m
      | _ \<Rightarrow> [])"

text \<open>The state a run leaves behind, whether it returned or raised.\<close>

definition final_state :: "outcome \<Rightarrow> state" where
  "final_state r = (case r of Returned s \<Rightarrow> s | Raised err s \<Rightarrow> s)"

subsection \<open>Sample inputs\<close>

text \<open>Concrete inputs on which the theorems below are instantiated.\<close>

definition ex_day :: datetime where
  "ex_day = \<lparr>year = 2024, month = 3, day = 5\<rparr>"

definition ex_entry_A :: entry where
  "ex_entry_A = \<lparr>entry_title = ''A'', entry_full_text = ''text'',
                  entry_image = Some ''http://x/1.png'', entry_categories = [''news'']\<rparr>"

definition ex_entry_A_padded :: entry where
  "ex_entry_A_padded = \<lparr>entry_title = '' A  '', entry_full_text = ''other'',
                  entry_image = Some ''http://x/1.png '', entry_categories = []\<rparr>"

definition ex_entry_B :: entry where
  "ex_entry_B = \<lparr>entry_title = ''B'', entry_full_text = ''text'',
                  entry_image = None, entry_categories = []\<rparr>"

definition ex_tree_A :: fs where
  "ex_tree_A = [([''data'', ''2024'', ''03'', ''05-03.json''], JList [Daily (build_daily_record ex_entry_A)])]"

definition ex_video :: yt_entry where
  "ex_video = \<lparr>yt_vid = ''vid1'', yt_thumb = None\<rparr>"

definition ex_env :: env where
  "ex_env = \<lparr>telegram_configured = True, news_entries = [ex_entry_A],
             youtube_entries = [ex_video], save_clock = ex_day, manifest_clock = ex_day,
             stats_clock = ''2024-03-05T10:00:00+00:00'', news_photo_ok = True,
             news_message_ok = True, yt_photo_ok = True, yt_message_ok = True\<rparr>"

definition ex_state0 :: state where
  "ex_state0 = \<lparr>crunchyroll_last_fp_file = None, youtube_last_id_file = None, tree = []\<rparr>"

definition ex_state_seen :: state where
  "ex_state_seen = \<lparr>crunchyroll_last_fp_file = Some (''A|http://x/1.png'' @ [CHR 0x0A]),
                     youtube_last_id_file = Some (''vid1'' @ [CHR 0x0A]), tree = ex_tree_A\<rparr>"

definition ex_state_after_A :: state where
  "ex_state_after_A =
     \<lparr>crunchyroll_last_fp_file = Some (''A|http://x/1.png'' @ [CHR 0x0A]),
      youtube_last_id_file = Some (''vid1'' @ [CHR 0x0A]),
      tree =
        [([''data'', ''2024'', ''03'', ''05-03.json''],
          JList [Daily (build_daily_record ex_entry_A)]),
         ([''data'', ''2024'', ''03'', ''month_manifest.json''],
          JMonthManifest \<lparr>mm_year = ''2024'', mm_month = ''03'',
                          days = [(''05'', ''data/2024/03/05-03.json'')]\<rparr>),
         ([''data'', ''2024'', ''year_manifest.json''],
          JYearManifest \<lparr>ym_year = ''2024'',
                         months = [(''03'', ''data/2024/03/month_manifest.json'')]\<rparr>),
         ([''global_index'', ''index_1.json''],
          JList [Slim \<lparr>slim_title = ''A'', slim_image = Some ''http://x/1.png'',
                       slim_categories = [''news''],
                       slim_path = Some ''data/2024/03/05-03.json#0''\<rparr>]),
         ([''global_index'', ''pagination.json''],
          JPagination \<lparr>total_articles = Some 1, files = [''index_1.json'']\<rparr>),
         ([''global_index'', ''stats.json''],
          JStats \<lparr>stats_total_articles = 1, added_today = 1,
                  last_update = ''2024-03-05T10:00:00+00:00''\<rparr>)]\<rparr>"

definition ex_slim :: item where
  "ex_slim = Slim \<lparr>slim_title = ''A'', slim_image = None, slim_categories = [],
                   slim_path = Some ''data/2024/03/05-03.json#0''\<rparr>"

definition ex_index :: "nat \<Rightarrow> fs" where
  "ex_index n =
     [([''global_index'', ''index_1.json''], JList (replicate n ex_slim)),
      ([''global_index'', ''pagination.json''],
       JPagination \<lparr>total_articles = Some (int n), files = [''index_1.json'']\<rparr>)]"

definition ex_tree_month :: fs where
  "ex_tree_month =
     [([''data'', ''2024'', ''03'', ''04-03.json''], JList []),
      ([''data'', ''2024'', ''03'', ''month_manifest.json''], Unparseable),
      ([''data'', ''2024'', ''03'', ''05-03.json''], JList []),
      ([''data'', ''2024'', ''02'', ''28-02.json''], JList [])]"

section \<open>Properties\<close>

lemmas text_defs = strip_def is_space_def or_empty_def digit_char_def pad2_def str_nat.simps
lemmas store_defs = daily_path_def DATA_BASE_def load_json_list_def save_json_list_def
  get_entry_identity_def item_identity_def build_daily_record_def save_single_news_def
lemmas ex_defs = ex_day_def ex_entry_A_def ex_entry_A_padded_def ex_entry_B_def ex_tree_A_def
  ex_video_def ex_env_def ex_state0_def ex_state_seen_def

subsection \<open>Decimal strings\<close>

lemma str_nat_nonempty: "str_nat n \<noteq> []"
  by (subst str_nat.simps) simp

lemma digit_char_inj:
  assumes "a < 10" and "b < 10" and "digit_char a = digit_char b"
  shows "a = b"
proof -
  have d: "distinct ''0123456789''" by simp
  have "a < length ''0123456789''" "b < length ''0123456789''"
    using assms(1,2) by simp_all
  with d assms(3) show ?thesis
    unfolding digit_char_def by (simp only: nth_eq_iff_index_eq)
qed

lemma str_nat_small: "n < 10 \<Longrightarrow> str_nat n = [digit_char n]"
  by (subst str_nat.simps) simp

lemma str_nat_large:
  "\<not> n < 10 \<Longrightarrow> str_nat n = str_nat (n div 10) @ [digit_char (n mod 10)]"
  by (subst str_nat.simps) simp

lemma str_nat_inj: "str_nat a = str_nat b \<Longrightarrow> a = b"
proof (induction a arbitrary: b rule: str_nat.induct)
  case (1 a)
  show ?case
  proof (cases "a < 10")
    case True
    note a = this
    show ?thesis
    proof (cases "b < 10")
      case True
      with a "1.prems" have "digit_char a = digit_char b"
        by (simp add: str_nat_small)
      with a True show ?thesis by (rule digit_char_inj)
    next
      case False
      with a "1.prems" have "[digit_char a] = str_nat (b div 10) @ [digit_char (b mod 10)]"
        by (simp add: str_nat_small str_nat_large)
      then have "str_nat (b div 10) = []" by simp
      then show ?thesis by (simp add: str_nat_nonempty)
    qed
  next
    case False
    note a = this
    show ?thesis
    proof (cases "b < 10")
      case True
      with a "1.prems" have "str_nat (a div 10) @ [digit_char (a mod 10)] = [digit_char b]"
        by (simp add: str_nat_small str_nat_large)
      then have "str_nat (a div 10) = []" by simp
      then show ?thesis by (simp add: str_nat_nonempty)
    next
      case False
      with a "1.prems" have e: "str_nat (a div 10) = str_nat (b div 10)"
        and d: "digit_char (a mod 10) = digit_char (b mod 10)"
        by (simp_all add: str_nat_large)
      from "1.IH" [OF a e] have q: "a div 10 = b div 10" .
      have "a mod 10 < 10" "b mod 10 < 10" by simp_all
      then have r: "a mod 10 = b mod 10"
        using d by (rule digit_char_inj)
      have "a = 10 * (a div 10) + a mod 10" by simp
      also have "\<dots> = 10 * (b div 10) + b mod 10" by (simp only: q r)
      also have "\<dots> = b" by simp
      finally show ?thesis .
    qed
  qed
qed

subsection \<open>Files\<close>

lemma map_of_save_json_list:
  "map_of (save_json_list p xs t) = (map_of t)(p \<mapsto> JList xs)"
  by (simp add: save_json_list_def update_conv')

lemma load_save_same: "load_json_list p (save_json_list p xs t) = xs"
  by (simp add: load_json_list_def map_of_save_json_list)

lemma load_save_other: "q \<noteq> p \<Longrightarrow> load_json_list q (save_json_list p xs t) = load_json_list q t"
  by (simp add: load_json_list_def map_of_save_json_list)

subsection \<open>Daily record store\<close>

lemma save_single_news_dup:
  "get_entry_identity e \<in> item_identity ` set (load_json_list (daily_path today) t) \<Longrightarrow>
   save_single_news today e t = ((None, as_posix (daily_path today)), t)"
  by (simp add: save_single_news_def Let_def)

lemma save_single_news_new:
  "get_entry_identity e \<notin> item_identity ` set (load_json_list (daily_path today) t) \<Longrightarrow>
   save_single_news today e t =
     ((Some (build_daily_record e), as_posix (daily_path today)),
      save_json_list (daily_path today)
        (load_json_list (daily_path today) t @ [Daily (build_daily_record e)]) t)"
  by (simp add: save_single_news_def Let_def)

text \<open>
  Claim C3. \<^verbatim>\<open>save_single_news\<close> loads the sequence of the day, where a missing or
  unparseable file counts as the empty sequence. The key of the candidate is its stripped
  title, a bar, and its stripped image. If a stored object has that key, the result is no
  record and the path, and the tree is unchanged. Otherwise the result is the candidate and
  the path, the day's file holds the old sequence followed by the candidate, and no other
  file has changed.
\<close>

theorem save_single_news_spec:
  "(map_of t (daily_path today) = None \<or> map_of t (daily_path today) = Some Unparseable
      \<longrightarrow> load_json_list (daily_path today) t = [])
   \<and> (\<forall>xs. map_of t (daily_path today) = Some (JList xs)
      \<longrightarrow> load_json_list (daily_path today) t = xs)
   \<and> (if \<exists>x \<in> set (load_json_list (daily_path today) t).
            item_identity x = strip (entry_title e) @ ''|'' @ strip (or_empty (entry_image e))
       then save_single_news today e t = ((None, as_posix (daily_path today)), t)
       else \<exists>t'. save_single_news today e t =
                   ((Some (build_daily_record e), as_posix (daily_path today)), t')
              \<and> load_json_list (daily_path today) t' =
                  load_json_list (daily_path today) t @ [Daily (build_daily_record e)]
              \<and> (\<forall>q. q \<noteq> daily_path today \<longrightarrow> map_of t' q = map_of t q))"
proof -
  let ?p = "daily_path today"
  have a: "map_of t ?p = None \<or> map_of t ?p = Some Unparseable \<longrightarrow> load_json_list ?p t = []"
    by (auto simp: load_json_list_def)
  have b: "\<forall>xs. map_of t ?p = Some (JList xs) \<longrightarrow> load_json_list ?p t = xs"
    by (simp add: load_json_list_def)
  have k: "strip (entry_title e) @ ''|'' @ strip (or_empty (entry_image e)) = get_entry_identity e"
    by (simp add: get_entry_identity_def)
  show ?thesis
  proof (cases "get_entry_identity e \<in> item_identity ` set (load_json_list ?p t)")
    case True
    then have "\<exists>x \<in> set (load_json_list ?p t). item_identity x = get_entry_identity e"
      by auto
    with a b save_single_news_dup [OF True] show ?thesis
      unfolding k by simp
  next
    case False
    then have n: "\<not> (\<exists>x \<in> set (load_json_list ?p t). item_identity x = get_entry_identity e)"
      by (metis image_eqI)
    have "\<forall>q. q \<noteq> ?p \<longrightarrow>
            map_of (save_json_list ?p (load_json_list ?p t @ [Daily (build_daily_record e)]) t) q
            = map_of t q"
      by (simp add: map_of_save_json_list)
    with a b n save_single_news_new [OF False] show ?thesis
      unfolding k by (simp add: load_save_same)
  qed
qed

theorem save_single_news_spec_witness:
  "map_of [] (daily_path ex_day) = None
   \<and> save_single_news ex_day ex_entry_A [] =
       ((Some (build_daily_record ex_entry_A), ''data/2024/03/05-03.json''), ex_tree_A)
   \<and> map_of ex_tree_A (daily_path ex_day) = Some (JList [Daily (build_daily_record ex_entry_A)])
   \<and> save_single_news ex_day ex_entry_A_padded ex_tree_A =
       ((None, ''data/2024/03/05-03.json''), ex_tree_A)"
  using save_single_news_spec [of "[]" ex_day ex_entry_A]
    save_single_news_spec [of ex_tree_A ex_day ex_entry_A_padded]
  by (simp add: ex_day_def ex_entry_A_def ex_entry_A_padded_def ex_tree_A_def text_defs store_defs Let_def)


lemma item_identity_build:
  "item_identity (Daily (build_daily_record e)) = get_entry_identity e"
  by (simp add: item_identity_def build_daily_record_def get_entry_identity_def or_empty_def)

lemma filter_key_absent:
  "k \<notin> f ` set xs \<Longrightarrow> filter (\<lambda>x. f x = k) xs = []"
  by (induction xs) auto

lemma filter_key_once:
  "distinct (map f xs) \<Longrightarrow> k \<in> f ` set xs \<Longrightarrow> length (filter (\<lambda>x. f x = k) xs) = 1"
proof (induction xs)
  case Nil
  then show ?case by simp
next
  case (Cons a xs)
  show ?case
  proof (cases "f a = k")
    case True
    with Cons.prems have "k \<notin> f ` set xs" by auto
    with True show ?thesis by (simp add: filter_key_absent)
  next
    case False
    with Cons show ?thesis by auto
  qed
qed

text \<open>
  Claim C7. Two calls of \<^verbatim>\<open>save_single_news\<close> on the same day, the second with an entry whose
  title and image are those of the first up to leading and trailing white space: the second
  call returns no record and leaves the tree as the first call left it. When the keys of the
  day's file were pairwise different before, they still are, and exactly one stored object
  has the key of the entry.
\<close>

theorem save_single_news_twice:
  assumes "strip (entry_title e2) = strip (entry_title e1)"
    and "strip (or_empty (entry_image e2)) = strip (or_empty (entry_image e1))"
  shows "\<exists>r1 t1.
           save_single_news today e1 t = ((r1, as_posix (daily_path today)), t1)
         \<and> save_single_news today e2 t1 = ((None, as_posix (daily_path today)), t1)
         \<and> (distinct (map item_identity (load_json_list (daily_path today) t))
              \<longrightarrow> distinct (map item_identity (load_json_list (daily_path today) t1))
                \<and> length (filter (\<lambda>x. item_identity x = get_entry_identity e1)
                            (load_json_list (daily_path today) t1)) = 1)"
proof -
  let ?p = "daily_path today"
  let ?old = "load_json_list ?p t"
  have same: "get_entry_identity e2 = get_entry_identity e1"
    using assms by (simp add: get_entry_identity_def)
  show ?thesis
  proof (cases "get_entry_identity e1 \<in> item_identity ` set ?old")
    case True
    have first: "save_single_news today e1 t = ((None, as_posix ?p), t)"
      by (rule save_single_news_dup [OF True])
    have second: "save_single_news today e2 t = ((None, as_posix ?p), t)"
      using True same by (simp add: save_single_news_dup)
    have "distinct (map item_identity ?old) \<longrightarrow>
            length (filter (\<lambda>x. item_identity x = get_entry_identity e1) ?old) = 1"
      using True by (simp add: filter_key_once)
    with first second show ?thesis by simp
  next
    case False
    let ?new = "?old @ [Daily (build_daily_record e1)]"
    let ?t1 = "save_json_list ?p ?new t"
    have first: "save_single_news today e1 t = ((Some (build_daily_record e1), as_posix ?p), ?t1)"
      by (rule save_single_news_new [OF False])
    have l: "load_json_list ?p ?t1 = ?new"
      by (rule load_save_same)
    have "get_entry_identity e2 \<in> item_identity ` set (load_json_list ?p ?t1)"
      unfolding l same by (simp add: item_identity_build)
    then have second: "save_single_news today e2 ?t1 = ((None, as_posix ?p), ?t1)"
      by (rule save_single_news_dup)
    have d: "distinct (map item_identity ?old) \<longrightarrow> distinct (map item_identity ?new)"
      using False by (simp add: item_identity_build)
    have c: "length (filter (\<lambda>x. item_identity x = get_entry_identity e1) ?new) = 1"
      using False by (simp add: filter_key_absent item_identity_build)
    have "save_single_news today e1 t = ((Some (build_daily_record e1), as_posix ?p), ?t1)
         \<and> save_single_news today e2 ?t1 = ((None, as_posix ?p), ?t1)
         \<and> (distinct (map item_identity ?old)
              \<longrightarrow> distinct (map item_identity (load_json_list ?p ?t1))
                \<and> length (filter (\<lambda>x. item_identity x = get_entry_identity e1)
                            (load_json_list ?p ?t1)) = 1)"
      using first second d c unfolding l by simp
    then show ?thesis by blast
  qed
qed

theorem save_single_news_twice_witness:
  "strip (entry_title ex_entry_A_padded) = strip (entry_title ex_entry_A)
   \<and> strip (or_empty (entry_image ex_entry_A_padded)) = strip (or_empty (entry_image ex_entry_A))
   \<and> distinct (map item_identity (load_json_list (daily_path ex_day) []))
   \<and> save_single_news ex_day ex_entry_A [] =
       ((Some (build_daily_record ex_entry_A), ''data/2024/03/05-03.json''), ex_tree_A)
   \<and> save_single_news ex_day ex_entry_A_padded ex_tree_A =
       ((None, ''data/2024/03/05-03.json''), ex_tree_A)
   \<and> length (filter (\<lambda>x. item_identity x = get_entry_identity ex_entry_A)
               (load_json_list (daily_path ex_day) ex_tree_A)) = 1"
proof -
  have h1: "strip (entry_title ex_entry_A_padded) = strip (entry_title ex_entry_A)"
    by (simp add: ex_defs text_defs)
  have h2: "strip (or_empty (entry_image ex_entry_A_padded))
            = strip (or_empty (entry_image ex_entry_A))"
    by (simp add: ex_defs text_defs)
  show ?thesis
    using h1 h2 save_single_news_twice [OF h1 h2, of ex_day "[]"]
    by (simp add: ex_defs text_defs store_defs Let_def)
qed

subsection \<open>Skipping a seen item\<close>

lemma read_text_file_truthy: "read_text_file f = Some v \<Longrightarrow> truthy (Some v) \<and> v \<noteq> []"
  by (auto simp: read_text_file_def truthy_def Let_def split: option.splits if_splits)

lemma run_news_skip:
  "news_entries ev = latest # rest \<Longrightarrow>
   read_text_file (crunchyroll_last_fp_file s) = Some (get_entry_identity latest) \<Longrightarrow>
   run_news ev s = Returned s"
  by (simp add: run_news_def Let_def read_text_file_truthy)

lemma youtube_skip:
  "youtube_entries ev = v # vs \<Longrightarrow>
   read_text_file (youtube_last_id_file s) = Some (yt_vid v) \<Longrightarrow>
   send_youtube_latest_if_new ev s = s"
  using read_text_file_truthy [of "youtube_last_id_file s" "yt_vid v"]
  by (simp add: send_youtube_latest_if_new_def Let_def)

lemma youtube_keeps_news:
  "tree (send_youtube_latest_if_new ev s) = tree s \<and>
   crunchyroll_last_fp_file (send_youtube_latest_if_new ev s) = crunchyroll_last_fp_file s"
  by (simp add: send_youtube_latest_if_new_def Let_def split: list.splits)

lemma run_news_keeps_youtube:
  "youtube_last_id_file (final_state (run_news ev s)) = youtube_last_id_file s"
  by (simp add: run_news_def final_state_def Let_def
      split: list.splits prod.splits option.splits sum.splits)

text \<open>
  Claim C9. The stored marker of a source is what \<^verbatim>\<open>read_text_file\<close> returns for its file:
  the text read in text mode, stripped. When the marker of the news source is the identity of
  the latest news entry, the run returns with the tree of JSON files (daily files, manifests,
  index pages, pagination descriptor, stats) and the news marker file unchanged. When the
  marker of the video source is the id of the latest video, the run leaves that marker file
  unchanged. When both hold, the run returns the state it received.
\<close>

theorem run_skip_no_writes:
  "(news_entries ev = latest # rest
      \<and> read_text_file (crunchyroll_last_fp_file s) = Some (get_entry_identity latest)
    \<longrightarrow> (\<exists>s'. run ev s = Returned s' \<and> tree s' = tree s
              \<and> crunchyroll_last_fp_file s' = crunchyroll_last_fp_file s))
   \<and> (youtube_entries ev = v # vs
      \<and> read_text_file (youtube_last_id_file s) = Some (yt_vid v)
    \<longrightarrow> youtube_last_id_file (final_state (run ev s)) = youtube_last_id_file s)
   \<and> (news_entries ev = latest # rest
      \<and> read_text_file (crunchyroll_last_fp_file s) = Some (get_entry_identity latest)
      \<and> youtube_entries ev = v # vs
      \<and> read_text_file (youtube_last_id_file s) = Some (yt_vid v)
    \<longrightarrow> run ev s = Returned s)"
proof (intro conjI impI)
  assume a: "news_entries ev = latest # rest
      \<and> read_text_file (crunchyroll_last_fp_file s) = Some (get_entry_identity latest)"
  then have "run_news ev s = Returned s" by (simp add: run_news_skip)
  then show "\<exists>s'. run ev s = Returned s' \<and> tree s' = tree s
              \<and> crunchyroll_last_fp_file s' = crunchyroll_last_fp_file s"
    by (simp add: run_def youtube_keeps_news)
next
  assume b: "youtube_entries ev = v # vs
      \<and> read_text_file (youtube_last_id_file s) = Some (yt_vid v)"
  show "youtube_last_id_file (final_state (run ev s)) = youtube_last_id_file s"
  proof (cases "run_news ev s")
    case (Returned s1)
    with run_news_keeps_youtube [of ev s]
    have k: "youtube_last_id_file s1 = youtube_last_id_file s" by (simp add: final_state_def)
    with b have "send_youtube_latest_if_new ev s1 = s1" by (simp add: youtube_skip)
    with Returned k show ?thesis by (simp add: run_def final_state_def)
  next
    case (Raised err s1)
    with run_news_keeps_youtube [of ev s] show ?thesis by (simp add: run_def final_state_def)
  qed
next
  assume c: "news_entries ev = latest # rest
      \<and> read_text_file (crunchyroll_last_fp_file s) = Some (get_entry_identity latest)
      \<and> youtube_entries ev = v # vs
      \<and> read_text_file (youtube_last_id_file s) = Some (yt_vid v)"
  then have "run_news ev s = Returned s" by (simp add: run_news_skip)
  with c show "run ev s = Returned s" by (simp add: run_def youtube_skip)
qed

theorem run_skip_no_writes_witness:
  "news_entries ex_env = ex_entry_A # []
   \<and> read_text_file (crunchyroll_last_fp_file ex_state_seen) = Some (get_entry_identity ex_entry_A)
   \<and> youtube_entries ex_env = ex_video # []
   \<and> read_text_file (youtube_last_id_file ex_state_seen) = Some (yt_vid ex_video)
   \<and> run ex_env ex_state_seen = Returned ex_state_seen"
  using run_skip_no_writes [of ex_env ex_entry_A "[]" ex_state_seen ex_video "[]"]
  by (simp add: ex_defs text_defs get_entry_identity_def read_text_file_def Let_def)

subsection \<open>Global paginated index\<close>

lemma gi_load_absent:
  "map_of t pag_path = None \<or> map_of t pag_path = Some Unparseable \<Longrightarrow>
   gi_load_pagination t = JPagination default_pagination"
  by (auto simp: gi_load_pagination_def)

lemma gi_load_present:
  "map_of t pag_path = Some (JPagination pag) \<Longrightarrow> gi_load_pagination t = JPagination pag"
  by (simp add: gi_load_pagination_def)

text \<open>The three ways a non-empty append can go, with the resulting tree written out.\<close>

lemma gi_append_first:
  assumes "gi_load_pagination t = JPagination pag" and "files pag = []" and "rs \<noteq> []"
  shows "gi_append_records now rs t =
    Inr (gi_save_stats (or_zero (total_articles pag) + int (length rs)) (length rs) now
          (gi_save_pagination
             \<lparr>total_articles = Some (or_zero (total_articles pag) + int (length rs)),
              files = [''index_1.json'']\<rparr>
             (save_json_list (page ''index_1.json'') rs
                (save_json_list (page ''index_1.json'') [] t))))"
  using assms
  by (simp add: gi_append_records_def Let_def page_def load_save_same GLOBAL_PAGE_SIZE_def)

lemma gi_append_room:
  assumes "gi_load_pagination t = JPagination pag" and "files pag \<noteq> []" and "rs \<noteq> []"
    and "length (load_json_list (page (last (files pag))) t) < GLOBAL_PAGE_SIZE"
  shows "gi_append_records now rs t =
    Inr (gi_save_stats (or_zero (total_articles pag) + int (length rs)) (length rs) now
          (gi_save_pagination
             \<lparr>total_articles = Some (or_zero (total_articles pag) + int (length rs)),
              files = files pag\<rparr>
             (save_json_list (page (last (files pag)))
                (load_json_list (page (last (files pag))) t @ rs) t)))"
  using assms
  by (simp add: gi_append_records_def Let_def page_def)

lemma gi_append_rotate:
  assumes "gi_load_pagination t = JPagination pag" and "files pag \<noteq> []" and "rs \<noteq> []"
    and "GLOBAL_PAGE_SIZE \<le> length (load_json_list (page (last (files pag))) t)"
  shows "gi_append_records now rs t =
    Inr (gi_save_stats (or_zero (total_articles pag) + int (length rs)) (length rs) now
          (gi_save_pagination
             \<lparr>total_articles = Some (or_zero (total_articles pag) + int (length rs)),
              files = files pag @ [index_name (length (files pag) + 1)]\<rparr>
             (save_json_list (page (index_name (length (files pag) + 1))) rs
                (save_json_list (page (index_name (length (files pag) + 1))) [] t))))"
  using assms
  by (simp add: gi_append_records_def Let_def page_def)


lemma map_of_gi_save_stats:
  "map_of (gi_save_stats a b c t) =
     (map_of t)(stats_path \<mapsto> JStats \<lparr>stats_total_articles = a, added_today = b, last_update = c\<rparr>)"
  by (simp add: gi_save_stats_def update_conv')

lemma map_of_gi_save_pagination:
  "map_of (gi_save_pagination pag t) = (map_of t)(pag_path \<mapsto> JPagination pag)"
  by (simp add: gi_save_pagination_def update_conv')

lemma page_eq_iff: "page a = page b \<longleftrightarrow> a = b"
  by (simp add: page_def)

lemma page_pag_path: "page a = pag_path \<longleftrightarrow> a = ''pagination.json''"
  by (simp add: page_def pag_path_def)

lemma page_stats_path: "page a = stats_path \<longleftrightarrow> a = ''stats.json''"
  by (simp add: page_def stats_path_def)

lemma pag_stats_path: "pag_path \<noteq> stats_path"
  by (simp add: pag_path_def stats_path_def)

lemma index_name_not_meta:
  "index_name k \<noteq> ''pagination.json''" "index_name k \<noteq> ''stats.json''"
  by (simp_all add: index_name_def)

lemma index_name_1: "index_name (Suc 0) = ''index_1.json''"
  by (simp add: index_name_def str_nat.simps digit_char_def)

lemma load_json_list_cong:
  "map_of t' p = map_of t p \<Longrightarrow> load_json_list p t' = load_json_list p t"
  by (simp add: load_json_list_def)

lemma load_json_list_Some:
  "map_of t p = Some (JList xs) \<Longrightarrow> load_json_list p t = xs"
  by (simp add: load_json_list_def)

lemma gi_load_after_save:
  "gi_load_pagination (gi_save_stats a b c (gi_save_pagination pag t)) = JPagination pag"
  by (simp add: gi_load_pagination_def map_of_gi_save_stats map_of_gi_save_pagination
      pag_stats_path)

text \<open>What an append leaves in the tree, for a page that is neither descriptor nor stats.\<close>

lemma map_of_after_append:
  "map_of (gi_save_stats a b c (gi_save_pagination pag (save_json_list (page n) xs t))) =
     (map_of t)(page n \<mapsto> JList xs, pag_path \<mapsto> JPagination pag,
        stats_path \<mapsto> JStats \<lparr>stats_total_articles = a, added_today = b, last_update = c\<rparr>)"
  by (simp add: map_of_gi_save_stats map_of_gi_save_pagination map_of_save_json_list)

lemma seq_numbered_snoc:
  "seq_numbered fl \<Longrightarrow> seq_numbered (fl @ [index_name (length fl + 1)])"
  by (simp add: seq_numbered_def)

lemma seq_numbered_first: "seq_numbered [''index_1.json'']"
  by (simp add: seq_numbered_def index_name_1)

text \<open>
  Claim C5. For a non-empty batch, with a descriptor whose registered names are not those of
  the descriptor and stats files: the page that receives the batch is chosen from the file
  list and the size of the last page before the append alone (page 1 when no page exists, a
  new page named after the length of the list when the last page holds at least
  \<open>GLOBAL_PAGE_SIZE\<close> objects, the last page otherwise). That one page then holds the
  old objects (none after a rotation) followed by the whole batch in order, every file other
  than this page, the descriptor and the stats is unchanged, and a batch larger than the
  room left puts the page over \<open>GLOBAL_PAGE_SIZE\<close>.
\<close>

theorem gi_append_never_splits:
  assumes "rs \<noteq> []" and "gi_load_pagination t = JPagination pag"
    and "''pagination.json'' \<notin> set (files pag)" and "''stats.json'' \<notin> set (files pag)"
  shows "\<exists>t' target.
      gi_append_records now rs t = Inr t'
    \<and> target =
        (if files pag = [] then ''index_1.json''
         else if GLOBAL_PAGE_SIZE \<le> length (load_json_list (page (last (files pag))) t)
              then index_name (length (files pag) + 1)
              else last (files pag))
    \<and> load_json_list (page target) t' =
        (if files pag \<noteq> [] \<and> length (load_json_list (page (last (files pag))) t) < GLOBAL_PAGE_SIZE
         then load_json_list (page (last (files pag))) t else []) @ rs
    \<and> (\<forall>q. q \<noteq> page target \<and> q \<noteq> pag_path \<and> q \<noteq> stats_path \<longrightarrow> map_of t' q = map_of t q)
    \<and> (files pag \<noteq> []
        \<and> length (load_json_list (page (last (files pag))) t) < GLOBAL_PAGE_SIZE
        \<and> GLOBAL_PAGE_SIZE < length (load_json_list (page (last (files pag))) t) + length rs
       \<longrightarrow> GLOBAL_PAGE_SIZE < length (load_json_list (page target) t'))"
proof -
  let ?old = "load_json_list (page (last (files pag))) t"
  consider (first) "files pag = []"
    | (rotate) "files pag \<noteq> []" "GLOBAL_PAGE_SIZE \<le> length ?old"
    | (room) "files pag \<noteq> []" "length ?old < GLOBAL_PAGE_SIZE"
    by linarith
  then show ?thesis
  proof cases
    case first
    note r = gi_append_first [OF assms(2) first assms(1), of now]
    have n: "page ''index_1.json'' \<noteq> pag_path" "page ''index_1.json'' \<noteq> stats_path"
      by (simp_all add: page_pag_path page_stats_path)
    show ?thesis
      unfolding r using first n
      by (simp add: load_json_list_def map_of_after_append map_of_save_json_list)
  next
    case rotate
    note r = gi_append_rotate [OF assms(2) rotate(1) assms(1) rotate(2), of now]
    let ?fresh = "index_name (length (files pag) + 1)"
    have n: "page ?fresh \<noteq> pag_path" "page ?fresh \<noteq> stats_path"
      using index_name_not_meta [of "length (files pag) + 1"]
      by (simp_all add: page_pag_path page_stats_path)
    show ?thesis
      unfolding r using rotate n
      by (simp add: load_json_list_def map_of_after_append map_of_save_json_list)
  next
    case room
    note r = gi_append_room [OF assms(2) room(1) assms(1) room(2), of now]
    have "last (files pag) \<in> set (files pag)"
      using room(1) by simp
    with assms(3,4) have "last (files pag) \<noteq> ''pagination.json''" "last (files pag) \<noteq> ''stats.json''"
      by auto
    then have n: "page (last (files pag)) \<noteq> pag_path" "page (last (files pag)) \<noteq> stats_path"
      by (simp_all add: page_pag_path page_stats_path)
    have l: "load_json_list (page (last (files pag)))
               (gi_save_stats a b c (gi_save_pagination pg
                  (save_json_list (page (last (files pag))) xs t))) = xs" for a b c pg xs
      using n by (simp add: load_json_list_def map_of_after_append)
    show ?thesis
      unfolding r using room n
      by (simp add: l map_of_after_append)
  qed
qed


lemma index_name_inj: "index_name a = index_name b \<Longrightarrow> a = b"
  by (simp add: index_name_def str_nat_inj)

lemma seq_numbered_distinct: "seq_numbered fl \<Longrightarrow> distinct fl"
proof -
  assume "seq_numbered fl"
  then have e: "fl = map index_name [1..<Suc (length fl)]"
    by (simp add: seq_numbered_def)
  have "inj_on index_name (set [1..<Suc (length fl)])"
    by (rule inj_onI) (rule index_name_inj)
  then have "distinct (map index_name [1..<Suc (length fl)])"
    by (simp add: distinct_map)
  with e show ?thesis by simp
qed

text \<open>
  Claim C6. An append to a descriptor whose registered names are not those of the descriptor
  and stats files succeeds and leaves such a descriptor. The file list is kept as it is or
  extended at the end by one name, \<open>index_name\<close> of its length plus one; sequential
  numbering is preserved, and it makes the registered names pairwise different; every
  registered page other than the last one has the content it had; and the last page holds
  its former objects (none when it is new) followed by the batch.
\<close>

theorem gi_append_preserves_descriptor:
  assumes "gi_load_pagination t = JPagination pag"
    and "''pagination.json'' \<notin> set (files pag)" and "''stats.json'' \<notin> set (files pag)"
  shows "\<exists>t' pag'.
      gi_append_records now rs t = Inr t'
    \<and> gi_load_pagination t' = JPagination pag'
    \<and> (files pag' = files pag \<or> files pag' = files pag @ [index_name (length (files pag) + 1)])
    \<and> ''pagination.json'' \<notin> set (files pag') \<and> ''stats.json'' \<notin> set (files pag')
    \<and> (seq_numbered (files pag) \<longrightarrow> seq_numbered (files pag') \<and> distinct (files pag'))
    \<and> (\<forall>f \<in> set (files pag'). f \<noteq> last (files pag') \<longrightarrow> map_of t' (page f) = map_of t (page f))
    \<and> (rs \<noteq> [] \<longrightarrow>
          load_json_list (page (last (files pag'))) t' =
            (if files pag' = files pag then load_json_list (page (last (files pag))) t else []) @ rs)"
proof (cases "rs = []")
  case True
  then have "gi_append_records now rs t = Inr t"
    by (simp add: gi_append_records_def)
  with assms True show ?thesis by (simp add: seq_numbered_distinct)
next
  case False
  let ?old = "load_json_list (page (last (files pag))) t"
  let ?tot = "or_zero (total_articles pag) + int (length rs)"
  have combine: "?thesis"
    if "gi_append_records now rs t = Inr t'"
      and "gi_load_pagination t' = JPagination pag'"
      and "files pag' = files pag \<or> files pag' = files pag @ [index_name (length (files pag) + 1)]"
      and "''pagination.json'' \<notin> set (files pag')" and "''stats.json'' \<notin> set (files pag')"
      and "seq_numbered (files pag) \<longrightarrow> seq_numbered (files pag') \<and> distinct (files pag')"
      and "\<forall>f \<in> set (files pag'). f \<noteq> last (files pag') \<longrightarrow> map_of t' (page f) = map_of t (page f)"
      and "load_json_list (page (last (files pag'))) t' =
            (if files pag' = files pag then load_json_list (page (last (files pag))) t else []) @ rs"
    for t' pag'
    using that by blast
  consider (first) "files pag = []"
    | (rotate) "files pag \<noteq> []" "GLOBAL_PAGE_SIZE \<le> length ?old"
    | (room) "files pag \<noteq> []" "length ?old < GLOBAL_PAGE_SIZE"
    by linarith
  then show ?thesis
  proof cases
    case first
    let ?pag' = "\<lparr>total_articles = Some ?tot, files = [''index_1.json'']\<rparr>"
    let ?t' = "gi_save_stats ?tot (length rs) now (gi_save_pagination ?pag'
                 (save_json_list (page ''index_1.json'') rs
                    (save_json_list (page ''index_1.json'') [] t)))"
    have r: "gi_append_records now rs t = Inr ?t'"
      by (rule gi_append_first [OF assms(1) first False])
    have l: "gi_load_pagination ?t' = JPagination ?pag'"
      by (rule gi_load_after_save)
    have f: "files ?pag' = files pag \<or> files ?pag' = files pag @ [index_name (length (files pag) + 1)]"
      using first by (simp add: index_name_1)
    have g: "''pagination.json'' \<notin> set (files ?pag')" "''stats.json'' \<notin> set (files ?pag')"
      by simp_all
    have sq0: "seq_numbered (files pag) \<longrightarrow> seq_numbered (files ?pag')"
      by (simp add: seq_numbered_first)
    have sq: "seq_numbered (files pag) \<longrightarrow> seq_numbered (files ?pag') \<and> distinct (files ?pag')"
      using sq0 seq_numbered_distinct by blast
    have o: "\<forall>f \<in> set (files ?pag'). f \<noteq> last (files ?pag') \<longrightarrow>
               map_of ?t' (page f) = map_of t (page f)"
      by simp
    have c: "load_json_list (page (last (files ?pag'))) ?t' =
            (if files ?pag' = files pag then load_json_list (page (last (files pag))) t else []) @ rs"
      using first
      by (simp add: load_json_list_def map_of_after_append page_pag_path page_stats_path)
    show ?thesis
      by (rule combine [OF r l f g sq o c])
  next
    case rotate
    let ?fresh = "index_name (length (files pag) + 1)"
    let ?pag' = "\<lparr>total_articles = Some ?tot, files = files pag @ [?fresh]\<rparr>"
    let ?t' = "gi_save_stats ?tot (length rs) now (gi_save_pagination ?pag'
                 (save_json_list (page ?fresh) rs (save_json_list (page ?fresh) [] t)))"
    have r: "gi_append_records now rs t = Inr ?t'"
      by (rule gi_append_rotate [OF assms(1) rotate(1) False rotate(2)])
    have l: "gi_load_pagination ?t' = JPagination ?pag'"
      by (rule gi_load_after_save)
    have m: "?fresh \<noteq> ''pagination.json''" "?fresh \<noteq> ''stats.json''"
      by (rule index_name_not_meta)+
    have f: "files ?pag' = files pag \<or> files ?pag' = files pag @ [index_name (length (files pag) + 1)]"
      by simp
    have g: "''pagination.json'' \<notin> set (files ?pag')" "''stats.json'' \<notin> set (files ?pag')"
      using m assms(2,3) by auto
    have sq0: "seq_numbered (files pag) \<longrightarrow> seq_numbered (files ?pag')"
      using seq_numbered_snoc [of "files pag"] by simp
    have sq: "seq_numbered (files pag) \<longrightarrow> seq_numbered (files ?pag') \<and> distinct (files ?pag')"
      using sq0 seq_numbered_distinct by blast
    have o: "\<forall>f \<in> set (files ?pag'). f \<noteq> last (files ?pag') \<longrightarrow>
               map_of ?t' (page f) = map_of t (page f)"
      using assms(2,3)
      by (auto simp: map_of_after_append map_of_save_json_list page_pag_path page_stats_path
          page_eq_iff)
    have c: "load_json_list (page (last (files ?pag'))) ?t' =
            (if files ?pag' = files pag then load_json_list (page (last (files pag))) t else []) @ rs"
      using m by (simp add: load_json_list_def map_of_after_append page_pag_path page_stats_path)
    show ?thesis
      by (rule combine [OF r l f g sq o c])
  next
    case room
    let ?cur = "last (files pag)"
    let ?pag' = "\<lparr>total_articles = Some ?tot, files = files pag\<rparr>"
    let ?t' = "gi_save_stats ?tot (length rs) now (gi_save_pagination ?pag'
                 (save_json_list (page ?cur) (?old @ rs) t))"
    have r: "gi_append_records now rs t = Inr ?t'"
      by (rule gi_append_room [OF assms(1) room(1) False room(2)])
    have l: "gi_load_pagination ?t' = JPagination ?pag'"
      by (rule gi_load_after_save)
    have "?cur \<in> set (files pag)"
      using room(1) by simp
    with assms(2,3) have m: "?cur \<noteq> ''pagination.json''" "?cur \<noteq> ''stats.json''"
      by auto
    have f: "files ?pag' = files pag \<or> files ?pag' = files pag @ [index_name (length (files pag) + 1)]"
      by simp
    have g: "''pagination.json'' \<notin> set (files ?pag')" "''stats.json'' \<notin> set (files ?pag')"
      using assms(2,3) by simp_all
    have sq0: "seq_numbered (files pag) \<longrightarrow> seq_numbered (files ?pag')"
      by simp
    have sq: "seq_numbered (files pag) \<longrightarrow> seq_numbered (files ?pag') \<and> distinct (files ?pag')"
      using sq0 seq_numbered_distinct by blast
    have o: "\<forall>f \<in> set (files ?pag'). f \<noteq> last (files ?pag') \<longrightarrow>
               map_of ?t' (page f) = map_of t (page f)"
      using assms(2,3)
      by (auto simp: map_of_after_append page_pag_path page_stats_path page_eq_iff)
    have c: "load_json_list (page (last (files ?pag'))) ?t' =
            (if files ?pag' = files pag then load_json_list (page (last (files pag))) t else []) @ rs"
      using m by (simp add: load_json_list_def map_of_after_append page_pag_path page_stats_path)
    show ?thesis
      by (rule combine [OF r l f g sq o c])
  qed
qed


lemma gi_append_each_append:
  "gi_append_each (as @ bs) t =
     (case gi_append_each as t of Inl err \<Rightarrow> Inl err | Inr t' \<Rightarrow> gi_append_each bs t')"
  by (induction as arbitrary: t) (auto split: sum.splits)

lemma keys_after_append:
  "fst ` set (gi_save_stats a b c (gi_save_pagination pg (save_json_list p xs t))) =
     {stats_path, pag_path, p} \<union> fst ` set t"
  by (auto simp: gi_save_stats_def gi_save_pagination_def save_json_list_def dom_update)

lemma keys_save_json_list:
  "fst ` set (save_json_list p xs t) = {p} \<union> fst ` set t"
  by (simp add: save_json_list_def dom_update)

lemma set_children:
  "set (children dir t) =
     (\<lambda>p. p ! length dir) ` {p \<in> fst ` set t. length dir < length p \<and> take (length dir) p = dir}"
  by (auto simp: children_def)

lemma pag_path_page: "pag_path = page ''pagination.json''"
  by (simp add: page_def pag_path_def)

lemma stats_path_page: "stats_path = page ''stats.json''"
  by (simp add: page_def stats_path_def)

lemma children_empty_no_file:
  assumes "children GLOBAL_INDEX t = []"
  shows "map_of t (page n) = None"
proof (rule ccontr)
  assume "map_of t (page n) \<noteq> None"
  then obtain v where "map_of t (page n) = Some v" by auto
  then have "(page n, v) \<in> set t"
    by (rule map_of_SomeD)
  then have "fst (page n, v) \<in> fst ` set t"
    by (rule imageI)
  then have m: "page n \<in> fst ` set t"
    by simp
  have "n \<in> (\<lambda>p. p ! length GLOBAL_INDEX) `
          {p \<in> fst ` set t. length GLOBAL_INDEX < length p \<and> take (length GLOBAL_INDEX) p = GLOBAL_INDEX}"
    by (rule image_eqI [of _ _ "page n"]) (use m in \<open>simp_all add: page_def GLOBAL_INDEX_def\<close>)
  then have "n \<in> set (children GLOBAL_INDEX t)"
    by (simp only: set_children)
  with assms show False by simp
qed


lemma children_pages:
  assumes "children GLOBAL_INDEX t = []"
    and "fst ` set t' = page ` N \<union> fst ` set t"
  shows "set (children GLOBAL_INDEX t') = N"
proof -
  have e: "{p \<in> fst ` set t. length GLOBAL_INDEX < length p \<and> take (length GLOBAL_INDEX) p = GLOBAL_INDEX} = {}"
    using assms(1) unfolding children_def by (auto simp: remdups_eq_nil_iff filter_empty_conv)
  have "{p \<in> fst ` set t'. length GLOBAL_INDEX < length p \<and> take (length GLOBAL_INDEX) p = GLOBAL_INDEX}
        = page ` N"
    using e unfolding assms(2) by (auto simp: page_def GLOBAL_INDEX_def)
  then show ?thesis
    unfolding set_children by (force simp: page_def GLOBAL_INDEX_def image_image)
qed



lemma gi_fill_first_page:
  assumes "map_of t pag_path =
             Some (JPagination \<lparr>total_articles = Some (int k), files = [''index_1.json'']\<rparr>)"
    and "map_of t (page ''index_1.json'') = Some (JList xs)"
    and "length xs = k" and "k + length cs \<le> GLOBAL_PAGE_SIZE"
  shows "\<exists>t'. gi_append_each cs t = Inr t'
     \<and> map_of t' pag_path =
         Some (JPagination \<lparr>total_articles = Some (int (k + length cs)), files = [''index_1.json'']\<rparr>)
     \<and> map_of t' (page ''index_1.json'') = Some (JList (xs @ map snd cs))
     \<and> fst ` set t' \<union> {stats_path, pag_path, page ''index_1.json''}
         = fst ` set t \<union> {stats_path, pag_path, page ''index_1.json''}"
  using assms
proof (induction cs arbitrary: t k xs)
  case Nil
  then show ?case by simp
next
  case (Cons c cs)
  obtain now r where c: "c = (now, r)" by (cases c)
  let ?pag = "\<lparr>total_articles = Some (int k), files = [''index_1.json'']\<rparr>"
  let ?pag' = "\<lparr>total_articles = Some (int (Suc k)), files = [''index_1.json'']\<rparr>"
  let ?t1 = "gi_save_stats (int (Suc k)) 1 now (gi_save_pagination ?pag'
               (save_json_list (page ''index_1.json'') (xs @ [r]) t))"
  have ld: "gi_load_pagination t = JPagination ?pag"
    by (rule gi_load_present [OF Cons.prems(1)])
  have old: "load_json_list (page (last (files ?pag))) t = xs"
    using Cons.prems(2) by (simp add: load_json_list_def)
  have room: "length (load_json_list (page (last (files ?pag))) t) < GLOBAL_PAGE_SIZE"
    unfolding old using Cons.prems(3,4) by simp
  have step: "gi_append_records now [r] t = Inr ?t1"
    using gi_append_room [OF ld _ _ room, of "[r]" now] old
    by (simp add: or_zero_def add.commute)
  have n: "page ''index_1.json'' \<noteq> pag_path" "page ''index_1.json'' \<noteq> stats_path"
    by (simp_all add: page_pag_path page_stats_path)
  have p1: "map_of ?t1 pag_path = Some (JPagination ?pag')"
    by (simp add: map_of_after_append pag_stats_path)
  have p2: "map_of ?t1 (page ''index_1.json'') = Some (JList (xs @ [r]))"
    using n by (simp add: map_of_after_append)
  have p3: "length (xs @ [r]) = Suc k"
    using Cons.prems(3) by simp
  have p4: "Suc k + length cs \<le> GLOBAL_PAGE_SIZE"
    using Cons.prems(4) by simp
  from Cons.IH [OF p1 p2 p3 p4] obtain t' where
    a: "gi_append_each cs ?t1 = Inr t'"
    and b: "map_of t' pag_path =
         Some (JPagination \<lparr>total_articles = Some (int (Suc k + length cs)), files = [''index_1.json'']\<rparr>)"
    and d: "map_of t' (page ''index_1.json'') = Some (JList ((xs @ [r]) @ map snd cs))"
    and e: "fst ` set t' \<union> {stats_path, pag_path, page ''index_1.json''}
         = fst ` set ?t1 \<union> {stats_path, pag_path, page ''index_1.json''}"
    by blast
  have k: "fst ` set ?t1 \<union> {stats_path, pag_path, page ''index_1.json''}
         = fst ` set t \<union> {stats_path, pag_path, page ''index_1.json''}"
    unfolding keys_after_append by auto
  show ?case
  proof (intro exI conjI)
    show "gi_append_each (c # cs) t = Inr t'"
      using step a by (simp add: c)
    show "map_of t' pag_path =
         Some (JPagination \<lparr>total_articles = Some (int (k + length (c # cs))), files = [''index_1.json'']\<rparr>)"
      using b by simp
    show "map_of t' (page ''index_1.json'') = Some (JList (xs @ map snd (c # cs)))"
      using d by (simp add: c)
    show "fst ` set t' \<union> {stats_path, pag_path, page ''index_1.json''}
         = fst ` set t \<union> {stats_path, pag_path, page ''index_1.json''}"
      by (rule trans [OF e k])
  qed
qed


lemma index_name_2: "index_name (length [a::string] + 1) = ''index_2.json''"
  by (simp add: index_name_def str_nat.simps digit_char_def)

lemma keys_chain:
  assumes "K1 = {s, p, i} \<union> T" and "K2 \<union> {s, p, i} = K1 \<union> {s, p, i}"
    and "K3 = {s, p, j} \<union> K2" and "i \<in> K2"
  shows "K3 = {i, j, p, s} \<union> T"
proof -
  have "K2 \<union> {s, p, i} = {s, p, i} \<union> T"
    using assms(1,2) by auto
  moreover have "K3 = {j} \<union> (K2 \<union> {s, p, i})"
    using assms(3,4) by auto
  ultimately show ?thesis by auto
qed

text \<open>
  Claim C4. On a tree with nothing below \<^verbatim>\<open>global_index\<close>, \<open>GLOBAL_PAGE_SIZE + 1\<close> calls
  with one object each succeed and leave the descriptor with total
  \<open>GLOBAL_PAGE_SIZE + 1\<close> and the two files \<^verbatim>\<open>index_1.json\<close> and \<^verbatim>\<open>index_2.json\<close>; page 1
  holds the first \<open>GLOBAL_PAGE_SIZE\<close> objects, page 2 holds the last one, and the directory
  holds these two pages, the descriptor and the stats, nothing else.
\<close>

theorem gi_rotation_after_capacity:
  assumes "children GLOBAL_INDEX t = []" and "length cs = GLOBAL_PAGE_SIZE + 1"
  shows "\<exists>t'. gi_append_each cs t = Inr t'
     \<and> gi_load_pagination t' =
         JPagination \<lparr>total_articles = Some (int GLOBAL_PAGE_SIZE + 1),
                      files = [''index_1.json'', ''index_2.json'']\<rparr>
     \<and> load_json_list (page ''index_1.json'') t' = map snd (take GLOBAL_PAGE_SIZE cs)
     \<and> length (load_json_list (page ''index_1.json'') t') = GLOBAL_PAGE_SIZE
     \<and> load_json_list (page ''index_2.json'') t' = [snd (last cs)]
     \<and> set (children GLOBAL_INDEX t') =
         {''index_1.json'', ''index_2.json'', ''pagination.json'', ''stats.json''}"
proof -
  let ?i1 = "''index_1.json''" and ?i2 = "''index_2.json''"
  from assms(2) obtain c0 rest where cs0: "cs = c0 # rest" and lr: "length rest = GLOBAL_PAGE_SIZE"
    by (cases cs) auto
  from lr have "rest \<noteq> []" by (auto simp: GLOBAL_PAGE_SIZE_def)
  then obtain mid cl where rest: "rest = mid @ [cl]"
    by (metis append_butlast_last_id)
  with lr have lm: "Suc (length mid) = GLOBAL_PAGE_SIZE" by simp
  obtain now0 r0 where c0: "c0 = (now0, r0)" by (cases c0)
  obtain nowl rl where cl: "cl = (nowl, rl)" by (cases cl)
  \<comment> \<open>the first call creates page 1\<close>
  let ?pag1 = "\<lparr>total_articles = Some 1, files = [?i1]\<rparr>"
  let ?t1 = "gi_save_stats 1 1 now0 (gi_save_pagination ?pag1
               (save_json_list (page ?i1) [r0] (save_json_list (page ?i1) [] t)))"
  have "map_of t pag_path = None"
    unfolding pag_path_page by (rule children_empty_no_file [OF assms(1)])
  then have ld0: "gi_load_pagination t = JPagination default_pagination"
    by (simp add: gi_load_absent)
  have s1: "gi_append_records now0 [r0] t = Inr ?t1"
    using gi_append_first [OF ld0, of "[r0]" now0]
    by (simp add: default_pagination_def or_zero_def)
  have n1: "page ?i1 \<noteq> pag_path" "page ?i1 \<noteq> stats_path"
    by (simp_all add: page_pag_path page_stats_path)
  have p1: "map_of ?t1 pag_path =
      Some (JPagination \<lparr>total_articles = Some (int (Suc 0)), files = [?i1]\<rparr>)"
    by (simp add: map_of_after_append pag_stats_path)
  have p2: "map_of ?t1 (page ?i1) = Some (JList [r0])"
    using n1 by (simp add: map_of_after_append)
  have k1: "fst ` set ?t1 = {stats_path, pag_path, page ?i1} \<union> fst ` set t"
    unfolding keys_after_append keys_save_json_list by auto
  \<comment> \<open>the next calls fill it\<close>
  have p4: "Suc 0 + length mid \<le> GLOBAL_PAGE_SIZE"
    using lm by simp
  have p3: "length [r0] = Suc 0"
    by simp
  from gi_fill_first_page [OF p1 p2 p3 p4] obtain t2 where
    s2: "gi_append_each mid ?t1 = Inr t2"
    and q1: "map_of t2 pag_path =
      Some (JPagination \<lparr>total_articles = Some (int (Suc 0 + length mid)), files = [?i1]\<rparr>)"
    and q2: "map_of t2 (page ?i1) = Some (JList ([r0] @ map snd mid))"
    and k2: "fst ` set t2 \<union> {stats_path, pag_path, page ?i1}
         = fst ` set ?t1 \<union> {stats_path, pag_path, page ?i1}"
    by blast
  \<comment> \<open>the last call finds it full and rotates\<close>
  let ?pag2 = "\<lparr>total_articles = Some (int (Suc 0 + length mid)), files = [?i1]\<rparr>"
  let ?pag3 = "\<lparr>total_articles = Some (int GLOBAL_PAGE_SIZE + 1), files = [?i1, ?i2]\<rparr>"
  let ?t3 = "gi_save_stats (int GLOBAL_PAGE_SIZE + 1) 1 nowl (gi_save_pagination ?pag3
               (save_json_list (page ?i2) [rl] (save_json_list (page ?i2) [] t2)))"
  have ld2: "gi_load_pagination t2 = JPagination ?pag2"
    by (rule gi_load_present [OF q1])
  have old2: "load_json_list (page (last (files ?pag2))) t2 = [r0] @ map snd mid"
    using q2 by (simp add: load_json_list_def)
  have full: "GLOBAL_PAGE_SIZE \<le> length (load_json_list (page (last (files ?pag2))) t2)"
    unfolding old2 using lm by simp
  have s3: "gi_append_records nowl [rl] t2 = Inr ?t3"
    using gi_append_rotate [OF ld2 _ _ full, of "[rl]" nowl] lm index_name_2 [of ?i1]
    by (simp add: or_zero_def add.commute)
  have run_all: "gi_append_each cs t = Inr ?t3"
    using s1 s2 s3 by (simp add: cs0 rest c0 cl gi_append_each_append)
  have n2: "page ?i2 \<noteq> pag_path" "page ?i2 \<noteq> stats_path" "page ?i1 \<noteq> page ?i2"
    by (simp_all add: page_pag_path page_stats_path page_eq_iff)
  have r1: "gi_load_pagination ?t3 = JPagination ?pag3"
    by (rule gi_load_after_save)
  have m1: "map_of ?t3 (page ?i1) = Some (JList ([r0] @ map snd mid))"
    using n1 n2 q2 by (simp add: map_of_after_append map_of_save_json_list)
  have tk: "map snd (take GLOBAL_PAGE_SIZE cs) = [r0] @ map snd mid"
    by (simp add: cs0 rest c0 flip: lm)
  have r2: "load_json_list (page ?i1) ?t3 = map snd (take GLOBAL_PAGE_SIZE cs)"
    unfolding tk using m1 by (simp add: load_json_list_def)
  have r3: "length (load_json_list (page ?i1) ?t3) = GLOBAL_PAGE_SIZE"
    unfolding r2 using assms(2) by simp
  have r4: "load_json_list (page ?i2) ?t3 = [snd (last cs)]"
    using n2 by (simp add: load_json_list_def map_of_after_append cs0 rest cl)
  have "(page ?i1, JList ([r0] @ map snd mid)) \<in> set t2"
    by (rule map_of_SomeD [OF q2])
  then have "fst (page ?i1, JList ([r0] @ map snd mid)) \<in> fst ` set t2"
    by (rule imageI)
  then have in2: "page ?i1 \<in> fst ` set t2"
    by simp
  have k3: "fst ` set ?t3 = {stats_path, pag_path, page ?i2} \<union> fst ` set t2"
    unfolding keys_after_append keys_save_json_list by auto
  have "fst ` set ?t3 = {page ?i1, page ?i2, pag_path, stats_path} \<union> fst ` set t"
    by (rule keys_chain [OF k1 k2 k3 in2])
  then have k: "fst ` set ?t3 = page ` {?i1, ?i2, ''pagination.json'', ''stats.json''} \<union> fst ` set t"
    by (simp add: pag_path_page stats_path_page)
  have r5: "set (children GLOBAL_INDEX ?t3) = {?i1, ?i2, ''pagination.json'', ''stats.json''}"
    by (rule children_pages [OF assms(1) k])
  from run_all r1 r2 r3 r4 r5 show ?thesis
    by blast
qed


lemma ex_index_load:
  "gi_load_pagination (ex_index n) =
     JPagination \<lparr>total_articles = Some (int n), files = [''index_1.json'']\<rparr>"
  by (simp add: ex_index_def gi_load_pagination_def pag_path_def GLOBAL_INDEX_def)

lemma ex_index_page:
  "load_json_list (page ''index_1.json'') (ex_index n) = replicate n ex_slim"
  by (simp add: ex_index_def load_json_list_def page_def GLOBAL_INDEX_def)

theorem gi_rotation_after_capacity_witness:
  "children GLOBAL_INDEX [] = []
   \<and> length (replicate 501 (''T'', ex_slim)) = GLOBAL_PAGE_SIZE + 1
   \<and> (\<exists>t'. gi_append_each (replicate 501 (''T'', ex_slim)) [] = Inr t'
        \<and> gi_load_pagination t' =
            JPagination \<lparr>total_articles = Some 501, files = [''index_1.json'', ''index_2.json'']\<rparr>
        \<and> load_json_list (page ''index_1.json'') t' = replicate 500 ex_slim
        \<and> load_json_list (page ''index_2.json'') t' = [ex_slim])"
proof -
  let ?cs = "replicate 501 (''T'', ex_slim)"
  have h1: "children GLOBAL_INDEX [] = []"
    by (simp add: children_def)
  have h2: "length ?cs = GLOBAL_PAGE_SIZE + 1"
    by (simp add: GLOBAL_PAGE_SIZE_def)
  from gi_rotation_after_capacity [OF h1 h2] obtain t' where
    a: "gi_append_each ?cs [] = Inr t'"
    and b: "gi_load_pagination t' =
         JPagination \<lparr>total_articles = Some (int GLOBAL_PAGE_SIZE + 1),
                      files = [''index_1.json'', ''index_2.json'']\<rparr>"
    and c: "load_json_list (page ''index_1.json'') t' = map snd (take GLOBAL_PAGE_SIZE ?cs)"
    and d: "load_json_list (page ''index_2.json'') t' = [snd (last ?cs)]"
    by blast
  have b': "gi_load_pagination t' =
      JPagination \<lparr>total_articles = Some 501, files = [''index_1.json'', ''index_2.json'']\<rparr>"
    using b by (simp add: GLOBAL_PAGE_SIZE_def)
  have c': "load_json_list (page ''index_1.json'') t' = replicate 500 ex_slim"
    using c by (simp add: GLOBAL_PAGE_SIZE_def)
  have d': "load_json_list (page ''index_2.json'') t' = [ex_slim]"
    using d by simp
  from a b' c' d' have "\<exists>t'. gi_append_each ?cs [] = Inr t'
        \<and> gi_load_pagination t' =
            JPagination \<lparr>total_articles = Some 501, files = [''index_1.json'', ''index_2.json'']\<rparr>
        \<and> load_json_list (page ''index_1.json'') t' = replicate 500 ex_slim
        \<and> load_json_list (page ''index_2.json'') t' = [ex_slim]"
    by blast
  with h1 h2 show ?thesis
    by (intro conjI)
qed

theorem gi_append_never_splits_witness:
  "[ex_slim, ex_slim] \<noteq> []
   \<and> gi_load_pagination (ex_index 499) =
       JPagination \<lparr>total_articles = Some 499, files = [''index_1.json'']\<rparr>
   \<and> ''pagination.json'' \<notin> set [''index_1.json''] \<and> ''stats.json'' \<notin> set [''index_1.json'']
   \<and> (\<exists>t'. gi_append_records ''T'' [ex_slim, ex_slim] (ex_index 499) = Inr t'
        \<and> load_json_list (page ''index_1.json'') t' = replicate 499 ex_slim @ [ex_slim, ex_slim]
        \<and> GLOBAL_PAGE_SIZE < length (load_json_list (page ''index_1.json'') t'))"
proof -
  let ?pag = "\<lparr>total_articles = Some (int 499), files = [''index_1.json'']\<rparr>"
  let ?rs = "[ex_slim, ex_slim]"
  have h1: "?rs \<noteq> []"
    by simp
  have h2: "gi_load_pagination (ex_index 499) = JPagination ?pag"
    by (rule ex_index_load)
  have h3: "''pagination.json'' \<notin> set (files ?pag)" and h4: "''stats.json'' \<notin> set (files ?pag)"
    by simp_all
  have old: "load_json_list (page (last (files ?pag))) (ex_index 499) = replicate 499 ex_slim"
    by (simp add: ex_index_page)
  from gi_append_never_splits [OF h1 h2 h3 h4, of "''T''"] obtain t' target where
    a: "gi_append_records ''T'' ?rs (ex_index 499) = Inr t'"
    and b: "target =
        (if files ?pag = [] then ''index_1.json''
         else if GLOBAL_PAGE_SIZE \<le> length (load_json_list (page (last (files ?pag))) (ex_index 499))
              then index_name (length (files ?pag) + 1)
              else last (files ?pag))"
    and c: "load_json_list (page target) t' =
        (if files ?pag \<noteq> [] \<and> length (load_json_list (page (last (files ?pag))) (ex_index 499)) < GLOBAL_PAGE_SIZE
         then load_json_list (page (last (files ?pag))) (ex_index 499) else []) @ ?rs"
    by blast
  have b': "target = ''index_1.json''"
    unfolding b old by (simp add: GLOBAL_PAGE_SIZE_def)
  have c': "load_json_list (page ''index_1.json'') t' = replicate 499 ex_slim @ ?rs"
    using c unfolding b' old by (simp add: GLOBAL_PAGE_SIZE_def)
  have d': "GLOBAL_PAGE_SIZE < length (load_json_list (page ''index_1.json'') t')"
    unfolding c' by (simp add: GLOBAL_PAGE_SIZE_def)
  from a c' d' have "\<exists>t'. gi_append_records ''T'' ?rs (ex_index 499) = Inr t'
        \<and> load_json_list (page ''index_1.json'') t' = replicate 499 ex_slim @ ?rs
        \<and> GLOBAL_PAGE_SIZE < length (load_json_list (page ''index_1.json'') t')"
    by blast
  with h1 h2 show ?thesis
    by simp
qed

theorem gi_append_preserves_descriptor_witness:
  "gi_load_pagination (ex_index 500) =
       JPagination \<lparr>total_articles = Some 500, files = [''index_1.json'']\<rparr>
   \<and> ''pagination.json'' \<notin> set [''index_1.json''] \<and> ''stats.json'' \<notin> set [''index_1.json'']
   \<and> seq_numbered [''index_1.json'']
   \<and> (\<exists>t' pag'. gi_append_records ''T'' [ex_slim] (ex_index 500) = Inr t'
        \<and> gi_load_pagination t' = JPagination pag'
        \<and> seq_numbered (files pag'))"
proof -
  let ?pag = "\<lparr>total_articles = Some (int 500), files = [''index_1.json'']\<rparr>"
  have h1: "gi_load_pagination (ex_index 500) = JPagination ?pag"
    by (rule ex_index_load)
  have h2: "''pagination.json'' \<notin> set (files ?pag)" and h3: "''stats.json'' \<notin> set (files ?pag)"
    by simp_all
  have sq: "seq_numbered [''index_1.json'']"
    by (rule seq_numbered_first)
  from gi_append_preserves_descriptor [OF h1 h2 h3, of "''T''" "[ex_slim]"] obtain t' pag' where
    a: "gi_append_records ''T'' [ex_slim] (ex_index 500) = Inr t'"
    and b: "gi_load_pagination t' = JPagination pag'"
    and d: "seq_numbered (files ?pag) \<longrightarrow> seq_numbered (files pag') \<and> distinct (files pag')"
    by blast
  from d sq have d': "seq_numbered (files pag')"
    by simp
  from a b d' have "\<exists>t' pag'. gi_append_records ''T'' [ex_slim] (ex_index 500) = Inr t'
        \<and> gi_load_pagination t' = JPagination pag'
        \<and> seq_numbered (files pag')"
    by blast
  with h1 sq show ?thesis
    by simp
qed

text \<open>
  Claim C10. \<^verbatim>\<open>gi_append_records\<close> with an empty batch returns at once: the tree is
  unchanged, whatever \<^verbatim>\<open>pagination.json\<close> holds and whether or not a page exists.
\<close>

theorem gi_append_empty_noop: "gi_append_records now [] t = Inr t"
  by (simp add: gi_append_records_def)

subsection \<open>Month manifest\<close>

lemma manifest_days_update:
  "manifest_days dt (update_month_manifest dt t) =
     sorted_desc (month_days (month_dir dt)
       (sort (filter (\<lambda>n. ends_with n ''.json'') (children (month_dir dt) t))) [])"
  by (simp add: manifest_days_def update_month_manifest_def month_dir_def Let_def update_conv')

lemma set_update_subset: "set (AList.update k v al) \<subseteq> insert (k, v) (set al)"
  by (induction al) auto

lemma month_days_keys:
  "fst ` set (month_days dir ns d) =
     fst ` set d \<union> (\<lambda>n. split_first (stem n)) ` (set ns - {''month_manifest.json''})"
  by (induction ns arbitrary: d) (auto simp: dom_update)

lemma month_days_distinct:
  "distinct (map fst d) \<Longrightarrow> distinct (map fst (month_days dir ns d))"
  by (induction ns arbitrary: d) (auto simp: distinct_update)

lemma month_days_entries:
  "set (month_days dir ns d) \<subseteq>
     set d \<union> (\<lambda>n. (split_first (stem n), as_posix (dir @ [n]))) ` (set ns - {''month_manifest.json''})"
proof (induction ns arbitrary: d)
  case Nil
  then show ?case by simp
next
  case (Cons n ns)
  show ?case
  proof (cases "n = ''month_manifest.json''")
    case True
    with Cons.IH [of d] show ?thesis by auto
  next
    case False
    let ?d = "AList.update (split_first (stem n)) (as_posix (dir @ [n])) d"
    from Cons.IH [of ?d] set_update_subset [of "split_first (stem n)" "as_posix (dir @ [n])" d]
    show ?thesis using False by auto
  qed
qed

lemma month_days_untouched:
  "k \<notin> (\<lambda>n. split_first (stem n)) ` (set ns - {''month_manifest.json''}) \<Longrightarrow>
   map_of (month_days dir ns d) k = map_of d k"
proof (induction ns arbitrary: d)
  case Nil
  then show ?case by simp
next
  case (Cons a ns)
  have rest: "k \<notin> (\<lambda>n. split_first (stem n)) ` (set ns - {''month_manifest.json''})"
    using Cons.prems by auto
  show ?case
  proof (cases "a = ''month_manifest.json''")
    case True
    with Cons.IH [OF rest, of d] show ?thesis by simp
  next
    case False
    with Cons.prems have "split_first (stem a) \<noteq> k" by auto
    with Cons.IH [OF rest, of "AList.update (split_first (stem a)) (as_posix (dir @ [a])) d"] False
    show ?thesis by (simp add: update_conv')
  qed
qed

lemma month_days_lookup:
  assumes "inj_on (\<lambda>n. split_first (stem n)) (set ns - {''month_manifest.json''})"
    and "n \<in> set ns" and "n \<noteq> ''month_manifest.json''"
  shows "map_of (month_days dir ns d) (split_first (stem n)) = Some (as_posix (dir @ [n]))"
  using assms
proof (induction ns arbitrary: d)
  case Nil
  then show ?case by simp
next
  case (Cons a ns)
  have "set ns - {''month_manifest.json''} \<subseteq> set (a # ns) - {''month_manifest.json''}"
    by auto
  with Cons.prems(1)
  have inj: "inj_on (\<lambda>n. split_first (stem n)) (set ns - {''month_manifest.json''})"
    by (rule inj_on_subset)
  show ?case
  proof (cases "n \<in> set ns")
    case True
    from Cons.IH [OF inj True Cons.prems(3)] show ?thesis by simp
  next
    case False
    with Cons.prems(2) have a: "a = n" by simp
    have "split_first (stem n) \<notin> (\<lambda>n. split_first (stem n)) ` (set ns - {''month_manifest.json''})"
    proof
      assume "split_first (stem n) \<in> (\<lambda>n. split_first (stem n)) ` (set ns - {''month_manifest.json''})"
      then obtain m where mm: "m \<in> set ns - {''month_manifest.json''}"
        and e': "split_first (stem n) = split_first (stem m)" by (rule imageE)
      from e' have e: "split_first (stem m) = split_first (stem n)" by simp
      from mm have m: "m \<in> set ns" by simp
      have "m \<in> set (a # ns) - {''month_manifest.json''}"
        using mm by simp
      moreover have "n \<in> set (a # ns) - {''month_manifest.json''}"
        using a Cons.prems(3) by simp
      ultimately have "m = n"
        using Cons.prems(1) e by (rule_tac inj_onD)
      with m False show False by simp
    qed
    then show ?thesis
      using a Cons.prems(3) by (simp add: month_days_untouched update_conv')
  qed
qed

lemma sorted_desc_set: "set (sorted_desc d) = set d"
  by (simp add: sorted_desc_def)

lemma sorted_desc_distinct:
  assumes "distinct (map fst d)"
  shows "distinct (map fst (sorted_desc d))"
proof -
  let ?s = "sort_key fst (rev d)"
  have "distinct (rev d)" "inj_on fst (set (rev d))"
    using assms by (simp_all add: distinct_map)
  then have "distinct ?s" "inj_on fst (set ?s)"
    by simp_all
  then have "distinct (map fst ?s)"
    by (simp add: distinct_map)
  then show ?thesis
    by (simp add: sorted_desc_def rev_map [symmetric])
qed

lemma sorted_desc_strict:
  assumes "distinct (map fst d)"
  shows "sorted_wrt (\<lambda>a b. b < a) (map fst (sorted_desc d))"
proof -
  let ?s = "sort_key fst (rev d)"
  have "distinct (rev d)" "inj_on fst (set (rev d))"
    using assms by (simp_all add: distinct_map)
  then have "distinct ?s" "inj_on fst (set ?s)"
    by simp_all
  then have "distinct (map fst ?s)"
    by (simp add: distinct_map)
  moreover have "sorted (map fst ?s)"
    by (rule sorted_sort_key)
  ultimately have "sorted_wrt (<) (map fst ?s)"
    by (simp add: strict_sorted_iff)
  then show ?thesis
    by (simp add: sorted_desc_def rev_map [symmetric] sorted_wrt_rev)
qed


lemma str_nat_digits: "set (str_nat n) \<subseteq> set ''0123456789''"
proof (induction n rule: str_nat.induct)
  case (1 n)
  show ?case
  proof (cases "n < 10")
    case True
    then have "digit_char n \<in> set ''0123456789''"
      unfolding digit_char_def by (intro nth_mem) simp
    with True show ?thesis
      by (subst str_nat.simps) simp
  next
    case False
    have "n mod 10 < 10" by simp
    then have "digit_char (n mod 10) \<in> set ''0123456789''"
      unfolding digit_char_def by (intro nth_mem) simp
    with False "1.IH" show ?thesis
      by (subst str_nat.simps) simp
  qed
qed

lemma pad2_digits: "set (pad2 n) \<subseteq> set ''0123456789''"
  using str_nat_digits [of n] by (auto simp: pad2_def Let_def)

lemma pad2_nonempty: "pad2 n \<noteq> []"
  by (simp add: pad2_def Let_def str_nat_nonempty)

lemma pad2_no_dash: "CHR ''-'' \<notin> set (pad2 n)"
  using pad2_digits [of n] by auto

lemma stem_json: "x \<noteq> [] \<Longrightarrow> stem (x @ ''.json'') = x"
  by (simp add: stem_def Let_def)

lemma split_first_dash:
  assumes "CHR ''-'' \<notin> set a"
  shows "split_first (a @ ''-'' @ b) = a"
proof -
  have "takeWhile (\<lambda>c. c \<noteq> CHR ''-'') (a @ (''-'' @ b))
        = a @ takeWhile (\<lambda>c. c \<noteq> CHR ''-'') (''-'' @ b)"
    using assms by (intro takeWhile_append2) auto
  then show ?thesis
    by (simp add: split_first_def)
qed

lemma daily_name_day: "split_first (stem (last (daily_path dt))) = pad2 (day dt)"
proof -
  have "last (daily_path dt) = (pad2 (day dt) @ ''-'' @ pad2 (month dt)) @ ''.json''"
    by (simp add: daily_path_def DATA_BASE_def)
  moreover have "pad2 (day dt) @ ''-'' @ pad2 (month dt) \<noteq> []"
    by (simp add: pad2_nonempty)
  ultimately have "stem (last (daily_path dt)) = pad2 (day dt) @ ''-'' @ pad2 (month dt)"
    using stem_json [of "pad2 (day dt) @ ''-'' @ pad2 (month dt)"] by simp
  then show ?thesis
    using split_first_dash [OF pad2_no_dash, of "day dt" "pad2 (month dt)"] by simp
qed

lemma daily_name_day_stem:
  "split_first (stem (pad2 d @ ''-'' @ pad2 m @ ''.json'')) = pad2 d"
proof -
  have "pad2 d @ ''-'' @ pad2 m \<noteq> []"
    by (simp add: pad2_nonempty)
  then have "stem ((pad2 d @ ''-'' @ pad2 m) @ ''.json'') = pad2 d @ ''-'' @ pad2 m"
    by (rule stem_json)
  then show ?thesis
    using split_first_dash [OF pad2_no_dash, of d "pad2 m"] by simp
qed

text \<open>The daily files of one month have pairwise different day-stems.\<close>

lemma daily_files_distinct_days:
  assumes "\<forall>n \<in> set ns. \<exists>d. n = pad2 d @ ''-'' @ pad2 m @ ''.json''"
  shows "inj_on (\<lambda>n. split_first (stem n)) (set ns)"
proof (rule inj_onI)
  fix a b
  assume a: "a \<in> set ns" and b: "b \<in> set ns"
    and e: "split_first (stem a) = split_first (stem b)"
  from assms a obtain d where da: "a = pad2 d @ ''-'' @ pad2 m @ ''.json''" by blast
  from assms b obtain d' where db: "b = pad2 d' @ ''-'' @ pad2 m @ ''.json''" by blast
  from e have "pad2 d = pad2 d'"
    unfolding da db by (simp only: daily_name_day_stem)
  then show "a = b"
    unfolding da db by simp
qed

lemma set_daily_names_sorted:
  "set (sort (filter (\<lambda>n. ends_with n ''.json'') (children (month_dir dt) t)))
     - {''month_manifest.json''} = set (daily_names dt t)"
  by (auto simp: daily_names_def)

text \<open>
  Claim C8. The day-stem of a file is the day key the code derives from its stem: the text of
  the stem before the first dash, which for a daily file is its two-digit day. The keys of
  the manifest \<^verbatim>\<open>update_month_manifest\<close> writes are exactly the day-stems of the JSON names
  found in the month directory other than the manifest itself; the keys are strictly
  descending as strings; every entry maps the day-stem of one of these names to the path of
  that file; and when no two names share a day-stem, as is the case for the daily files of
  one month, the day-stem of every name is mapped to the path of that file.
\<close>

theorem month_manifest_derived:
  "fst ` set (manifest_days dt (update_month_manifest dt t))
     = (\<lambda>n. split_first (stem n)) ` set (daily_names dt t)
   \<and> sorted_wrt (\<lambda>a b. b < a) (map fst (manifest_days dt (update_month_manifest dt t)))
   \<and> (\<forall>e \<in> set (manifest_days dt (update_month_manifest dt t)).
        \<exists>n \<in> set (daily_names dt t).
          e = (split_first (stem n), as_posix (month_dir dt @ [n])))
   \<and> (inj_on (\<lambda>n. split_first (stem n)) (set (daily_names dt t)) \<longrightarrow>
        (\<forall>n \<in> set (daily_names dt t).
           map_of (manifest_days dt (update_month_manifest dt t)) (split_first (stem n))
             = Some (as_posix (month_dir dt @ [n]))))
   \<and> split_first (stem (last (daily_path dt))) = pad2 (day dt)"
proof -
  let ?found = "sort (filter (\<lambda>n. ends_with n ''.json'') (children (month_dir dt) t))"
  let ?d = "month_days (month_dir dt) ?found []"
  have md: "manifest_days dt (update_month_manifest dt t) = sorted_desc ?d"
    by (rule manifest_days_update)
  have nm: "set ?found - {''month_manifest.json''} = set (daily_names dt t)"
    by (rule set_daily_names_sorted)
  have keys: "fst ` set (sorted_desc ?d) = (\<lambda>n. split_first (stem n)) ` set (daily_names dt t)"
    unfolding sorted_desc_set month_days_keys nm by simp
  have dist: "distinct (map fst ?d)"
    by (rule month_days_distinct) simp
  have ord: "sorted_wrt (\<lambda>a b. b < a) (map fst (sorted_desc ?d))"
    by (rule sorted_desc_strict [OF dist])
  have ent: "\<forall>e \<in> set (sorted_desc ?d).
        \<exists>n \<in> set (daily_names dt t). e = (split_first (stem n), as_posix (month_dir dt @ [n]))"
    using month_days_entries [of "month_dir dt" ?found "[]"]
    unfolding sorted_desc_set nm by auto
  have dist': "distinct (map fst (sorted_desc ?d))"
    by (rule sorted_desc_distinct [OF dist])
  have look: "inj_on (\<lambda>n. split_first (stem n)) (set (daily_names dt t)) \<longrightarrow>
        (\<forall>n \<in> set (daily_names dt t).
           map_of (sorted_desc ?d) (split_first (stem n)) = Some (as_posix (month_dir dt @ [n])))"
  proof (intro impI ballI)
    fix n
    assume inj: "inj_on (\<lambda>n. split_first (stem n)) (set (daily_names dt t))"
      and n: "n \<in> set (daily_names dt t)"
    from n have n1: "n \<in> set ?found" and n2: "n \<noteq> ''month_manifest.json''"
      unfolding nm [symmetric] by simp_all
    from inj have inj': "inj_on (\<lambda>n. split_first (stem n)) (set ?found - {''month_manifest.json''})"
      unfolding nm .
    have "map_of ?d (split_first (stem n)) = Some (as_posix (month_dir dt @ [n]))"
      by (rule month_days_lookup [OF inj' n1 n2])
    then have "(split_first (stem n), as_posix (month_dir dt @ [n])) \<in> set (sorted_desc ?d)"
      unfolding sorted_desc_set by (rule map_of_SomeD)
    with dist' show "map_of (sorted_desc ?d) (split_first (stem n)) = Some (as_posix (month_dir dt @ [n]))"
      by (simp add: map_of_eq_Some_iff)
  qed
  show ?thesis
    unfolding md by (intro conjI keys ord ent look daily_name_day)
qed


lemma ex_month_names:
  "daily_names ex_day ex_tree_month = [''04-03.json'', ''05-03.json'']"
  by code_simp

lemma ex_month_days:
  "manifest_days ex_day (update_month_manifest ex_day ex_tree_month) =
     [(''05'', ''data/2024/03/05-03.json''), (''04'', ''data/2024/03/04-03.json'')]"
  by code_simp

theorem month_manifest_derived_witness:
  "inj_on (\<lambda>n. split_first (stem n)) (set (daily_names ex_day ex_tree_month))
   \<and> daily_names ex_day ex_tree_month = [''04-03.json'', ''05-03.json'']
   \<and> manifest_days ex_day (update_month_manifest ex_day ex_tree_month) =
       [(''05'', ''data/2024/03/05-03.json''), (''04'', ''data/2024/03/04-03.json'')]
   \<and> map_of (manifest_days ex_day (update_month_manifest ex_day ex_tree_month)) ''04''
       = Some ''data/2024/03/04-03.json''"
proof -
  have k: "split_first (stem ''04-03.json'') = ''04''" "split_first (stem ''05-03.json'') = ''05''"
    by code_simp+
  have p: "as_posix (month_dir ex_day @ [''04-03.json'']) = ''data/2024/03/04-03.json''"
    by code_simp
  have h: "inj_on (\<lambda>n. split_first (stem n)) (set (daily_names ex_day ex_tree_month))"
    by (simp add: ex_month_names k)
  have m: "''04-03.json'' \<in> set (daily_names ex_day ex_tree_month)"
    by (simp add: ex_month_names)
  from month_manifest_derived [of ex_day ex_tree_month] h m
  have "map_of (manifest_days ex_day (update_month_manifest ex_day ex_tree_month))
          (split_first (stem ''04-03.json'')) = Some (as_posix (month_dir ex_day @ [''04-03.json'']))"
    by blast
  then have "map_of (manifest_days ex_day (update_month_manifest ex_day ex_tree_month)) ''04''
       = Some ''data/2024/03/04-03.json''"
    by (simp only: k p)
  with h ex_month_names ex_month_days show ?thesis
    by (intro conjI)
qed

subsection \<open>Marker and slim reference in general\<close>

text \<open>
  The identity of an entry is not changed by \<^verbatim>\<open>strip\<close>, and when it holds no carriage return
  it survives being written to the marker file and read back.
\<close>

lemma strip_fixed:
  assumes "s \<noteq> []" and "\<not> is_space (hd s)" and "\<not> is_space (last s)"
  shows "strip s = s"
proof -
  have a: "dropWhile is_space s = s"
    using assms(1,2) by (cases s) simp_all
  have "rev s \<noteq> []" "\<not> is_space (hd (rev s))"
    using assms(1,3) by (simp_all add: hd_rev)
  then have "dropWhile is_space (rev s) = rev s"
    by (cases "rev s") simp_all
  with a show ?thesis
    by (simp add: strip_def)
qed

lemma strip_hd: "strip s \<noteq> [] \<Longrightarrow> \<not> is_space (hd (strip s))"
proof -
  assume ne: "strip s \<noteq> []"
  let ?u = "dropWhile is_space s"
  let ?v = "dropWhile is_space (rev ?u)"
  have v: "?v \<noteq> []" using ne by (simp add: strip_def)
  then have "\<not> is_space (hd ?v)" by (rule hd_dropWhile)
  have "rev ?u \<noteq> []"
  proof
    assume "rev ?u = []"
    then have "?v = []" by (simp only: dropWhile.simps)
    with v show False by simp
  qed
  then have u: "?u \<noteq> []" by simp
  then have hu: "\<not> is_space (hd ?u)" by (rule hd_dropWhile)
  obtain w where w: "rev ?u = w @ ?v"
    by (metis takeWhile_dropWhile_id)
  then have "?u = rev ?v @ rev w"
    by (metis rev_append rev_rev_ident)
  then have "hd ?u = hd (rev ?v)"
    using v by (metis hd_append2 rev_is_Nil_conv)
  with hu show ?thesis
    by (simp add: strip_def)
qed

lemma strip_last: "strip s \<noteq> [] \<Longrightarrow> \<not> is_space (last (strip s))"
proof -
  assume ne: "strip s \<noteq> []"
  let ?v = "dropWhile is_space (rev (dropWhile is_space s))"
  have v: "?v \<noteq> []" using ne by (simp add: strip_def)
  then have "\<not> is_space (hd ?v)" by (rule hd_dropWhile)
  then show ?thesis
    using v by (simp add: strip_def last_rev)
qed

lemma bar_not_space: "\<not> is_space CHR ''|''"
  by (simp add: is_space_def)

lemma newline_space: "is_space (CHR 0x0A)"
  by (simp add: is_space_def)

lemma identity_stripped:
  "get_entry_identity e \<noteq> []
   \<and> \<not> is_space (hd (get_entry_identity e)) \<and> \<not> is_space (last (get_entry_identity e))"
proof -
  let ?a = "strip (entry_title e)" and ?b = "strip (or_empty (entry_image e))"
  have h: "\<not> is_space (hd (?a @ ''|'' @ ?b))"
    using strip_hd [of "entry_title e"] bar_not_space by (cases ?a) simp_all
  have l: "\<not> is_space (last (?a @ ''|'' @ ?b))"
    using strip_last [of "or_empty (entry_image e)"] bar_not_space by (cases "?b = []") simp_all
  from h l show ?thesis
    by (simp add: get_entry_identity_def)
qed

lemma universal_newlines_id: "CHR 0x0D \<notin> set s \<Longrightarrow> universal_newlines s = s"
  by (induction s rule: universal_newlines.induct) auto

lemma marker_roundtrip:
  assumes "CHR 0x0D \<notin> set (get_entry_identity e)"
  shows "read_text_file (write_text_file (get_entry_identity e)) = Some (get_entry_identity e)"
proof -
  let ?fp = "get_entry_identity e"
  from identity_stripped [of e]
  have ne: "?fp \<noteq> []" and h: "\<not> is_space (hd ?fp)" and l: "\<not> is_space (last ?fp)"
    by simp_all
  have s: "strip ?fp = ?fp"
    by (rule strip_fixed [OF ne h l])
  have d: "dropWhile is_space ?fp = ?fp"
    using ne h by (cases ?fp) simp_all
  have r: "dropWhile is_space (rev ?fp) = rev ?fp"
    using ne l by (cases "rev ?fp") (simp_all add: hd_rev)
  have m: "hd ?fp \<in> set ?fp"
    using ne by (rule hd_in_set)
  have "CHR 0x0D \<notin> set (?fp @ [CHR 0x0A])"
    using assms by simp
  then have u: "universal_newlines (?fp @ [CHR 0x0A]) = ?fp @ [CHR 0x0A]"
    by (rule universal_newlines_id)
  have "strip (?fp @ [CHR 0x0A]) = ?fp"
    using ne d r newline_space h m by (auto simp: strip_def dropWhile_append)
  with ne s u show ?thesis
    by (simp add: read_text_file_def write_text_file_def)
qed

text \<open>
  A carriage return inside the identity does not survive: the marker written for the title
  \<^verbatim>\<open>A\rB\<close> reads back with a line feed in its place.
\<close>

lemma marker_carriage_return:
  "read_text_file (write_text_file [CHR ''A'', CHR 0x0D, CHR ''B'', CHR ''|''])
     = Some [CHR ''A'', CHR 0x0A, CHR ''B'', CHR ''|'']"
  by code_simp

text \<open>
  When the news part of a run returns on a non-empty feed whose latest identity holds no
  carriage return, the marker reads as that identity; when it raises, the marker file is as
  it was.
\<close>

lemma run_news_returned_marker:
  assumes "news_entries ev = latest # rest" and "run_news ev s = Returned s'"
    and "CHR 0x0D \<notin> set (get_entry_identity latest)"
  shows "read_text_file (crunchyroll_last_fp_file s') = Some (get_entry_identity latest)"
proof (cases "truthy (read_text_file (crunchyroll_last_fp_file s))
              \<and> Some (get_entry_identity latest) = read_text_file (crunchyroll_last_fp_file s)")
  case True
  with assms(1,2) have "s' = s"
    by (simp add: run_news_def Let_def)
  with True show ?thesis by simp
next
  case False
  with assms(1,2) have "crunchyroll_last_fp_file s' = write_text_file (get_entry_identity latest)"
    by (auto simp: run_news_def Let_def split: prod.splits option.splits sum.splits)
  then show ?thesis
    by (simp add: marker_roundtrip [OF assms(3)])
qed

lemma run_news_raised_marker:
  assumes "run_news ev s = Raised err s'"
  shows "crunchyroll_last_fp_file s' = crunchyroll_last_fp_file s"
  using assms
  by (auto simp: run_news_def Let_def split: list.splits if_splits prod.splits option.splits sum.splits)

text \<open>The slim record \<^verbatim>\<open>run\<close> builds from the one stored record always refers to index 0.\<close>

lemma as_posix_daily_path_nonempty: "as_posix (daily_path dt) \<noteq> []"
  by (simp add: daily_path_def DATA_BASE_def)

lemma slim_index_is_zero:
  "convert_full_to_slim [r] (Some (as_posix (daily_path dt))) =
     [\<lparr>slim_title = title r, slim_image = image_url r, slim_categories = categories r,
       slim_path = Some (as_posix (daily_path dt) @ ''#0'')\<rparr>]"
  using as_posix_daily_path_nonempty [of dt]
  by (simp add: convert_full_to_slim_def truthy_def or_empty_def str_nat.simps digit_char_def)

subsection \<open>Behaviour of the run on concrete feeds\<close>

text \<open>
  Claim C2, evaluated on one input. The feed holds a new entry without image, and the text
  message to Telegram raises. The record is stored in the day's file, the exception leaves
  \<^verbatim>\<open>run\<close>, and the marker file of the news source is still missing, while the identity of
  the entry is \<open>B|\<close>.
\<close>

theorem send_failure_loses_marker:
  "run (ex_env\<lparr>news_entries := [ex_entry_B], news_message_ok := False\<rparr>) ex_state0 =
     Raised TelegramError
       \<lparr>crunchyroll_last_fp_file = None, youtube_last_id_file = None,
        tree = [([''data'', ''2024'', ''03'', ''05-03.json''],
                 JList [Daily (build_daily_record ex_entry_B)])]\<rparr>
   \<and> get_entry_identity ex_entry_B = ''B|''"
  by code_simp

text \<open>
  Claim C1, evaluated on one input. A first run stores entry A on an empty tree. A second run
  on the same day stores entry B: B is the second object of the day's file, at index 1, and
  the slim record written for B refers to index 0.
\<close>

theorem slim_reference_always_zero:
  "run ex_env ex_state0 = Returned ex_state_after_A
   \<and> load_json_list [''data'', ''2024'', ''03'', ''05-03.json'']
       (tree (final_state (run (ex_env\<lparr>news_entries := [ex_entry_B]\<rparr>) ex_state_after_A)))
     = [Daily (build_daily_record ex_entry_A), Daily (build_daily_record ex_entry_B)]
   \<and> load_json_list [''global_index'', ''index_1.json'']
       (tree (final_state (run (ex_env\<lparr>news_entries := [ex_entry_B]\<rparr>) ex_state_after_A)))
     = [Slim \<lparr>slim_title = ''A'', slim_image = Some ''http://x/1.png'',
              slim_categories = [''news''], slim_path = Some ''data/2024/03/05-03.json#0''\<rparr>,
        Slim \<lparr>slim_title = ''B'', slim_image = None,
              slim_categories = [], slim_path = Some ''data/2024/03/05-03.json#0''\<rparr>]"
  by code_simp

end
